theory Spec2Isabelle
  imports Main "HOL-Library.Word" "HOL-Library.Tree" "HOL-Library.List_Lexorder"
begin

unbundle bit_operations_syntax

section \<open>Keys, values and error codes\<close>

text \<open>
  The item cache of \<^verbatim>\<open>src/item.c\<close> is embedded shallowly. A key buffer
  (\<^verbatim>\<open>struct scoutfs_key_buf\<close>) is the list of its \<^verbatim>\<open>key_len\<close> bytes. A value
  (\<^verbatim>\<open>SCOUTFS_DECLARE_KVEC\<close>) is held flattened: \<open>None\<close> is the null vector written by
  \<^verbatim>\<open>scoutfs_kvec_init_null\<close>, \<open>Some bs\<close> the bytes \<^verbatim>\<open>scoutfs_kvec_dup_flatten\<close> stored.
\<close>

type_synonym byte = "8 word"
type_synonym key_buf = "byte list"
type_synonym kvec = "byte list option"

datatype errno = ENOENT | EEXIST | ENOMEM | EINVAL | EIO | ENODATA

definition key_len :: "key_buf \<Rightarrow> nat" where
  "key_len k = length k"

text \<open>
  Modelled from the spec: \<^verbatim>\<open>scoutfs_key_compare\<close> (key.h is not among the sources).
  Keys compare lexicographically by bytes up to the shorter length, and the longer key
  is the greater one on a tie. Only the sign of the result is used by item.c.
\<close>

fun scoutfs_key_compare :: "key_buf \<Rightarrow> key_buf \<Rightarrow> int" where
  "scoutfs_key_compare [] [] = 0"
| "scoutfs_key_compare [] (y # ys) = -1"
| "scoutfs_key_compare (x # xs) [] = 1"
| "scoutfs_key_compare (x # xs) (y # ys) =
     (if x < y then -1 else if y < x then 1 else scoutfs_key_compare xs ys)"

text \<open>
  Modelled from the spec: \<^verbatim>\<open>scoutfs_key_compare_ranges\<close> (key.h). It is negative when
  the first range ends before the second starts, positive when it starts after the second
  ends, and zero otherwise.
\<close>

definition scoutfs_key_compare_ranges :: "key_buf \<Rightarrow> key_buf \<Rightarrow> key_buf \<Rightarrow> key_buf \<Rightarrow> int" where
  "scoutfs_key_compare_ranges a_start a_end b_start b_end =
     (if scoutfs_key_compare a_end b_start < 0 then -1
      else if scoutfs_key_compare a_start b_end > 0 then 1
      else 0)"

text \<open>Modelled from the spec: \<^verbatim>\<open>scoutfs_kvec_length\<close> (kvec.h), the total length.\<close>

definition scoutfs_kvec_length :: "kvec \<Rightarrow> nat" where
  "scoutfs_kvec_length v = (case v of None \<Rightarrow> 0 | Some bs \<Rightarrow> length bs)"

text \<open>
  Modelled from the spec: \<^verbatim>\<open>scoutfs_kvec_memcpy\<close> (kvec.h) copies the source into the
  caller's vector with truncation. The caller's vector is given by its capacity; the
  result is the bytes that were copied, whose number is the C return value.
\<close>

definition scoutfs_kvec_memcpy :: "nat \<Rightarrow> kvec \<Rightarrow> byte list" where
  "scoutfs_kvec_memcpy cap src = take cap (case src of None \<Rightarrow> [] | Some bs \<Rightarrow> bs)"

section \<open>The kernel's red-black tree, as far as item.c relies on it\<close>

text \<open>
  \<^verbatim>\<open>linux/rbtree_augmented.h\<close> is not part of the repository. A tree is a binary tree of
  its entries. Node colours are not kept: the rotations that the kernel's rebalancing
  performs are left arbitrary. They are drawn from a schedule held next to the root: each
  call of \<^verbatim>\<open>rb_insert_augmented\<close>, \<^verbatim>\<open>rb_insert_color\<close>, \<^verbatim>\<open>rb_erase_augmented\<close> or
  \<^verbatim>\<open>rb_erase\<close> takes the next script of rotations from it, so every theorem below holds
  for whatever rotations the kernel chooses.

  A pointer to a node is modelled by a locator: a function from entries to a comparison
  result that leads the descent from the root to that node (negative: left, positive:
  right, zero: this node).

  The augmentation is given by one function \<open>aug l x r\<close> that recomputes the entry \<open>x\<close>
  of a node from its children. The three callbacks of \<^verbatim>\<open>scoutfs_item_rb_cb\<close> all assign
  \<^verbatim>\<open>compute_item_dirty\<close> to the nodes they are given; an unaugmented tree uses
  \<open>\<lambda>l x r. x\<close>.
\<close>

datatype rb_dir = RB_LEFT | RB_RIGHT

type_synonym rb_rotation = "rb_dir list \<times> rb_dir"

record 'a rb_root =
  rb_node :: "'a tree"
  rb_sched :: "rb_rotation list list"

definition RB_ROOT :: "'a rb_root" where
  "RB_ROOT = \<lparr>rb_node = Leaf, rb_sched = []\<rparr>"

text \<open>
  The rotate callback \<^verbatim>\<open>scoutfs_item_rb_rotate(old, new)\<close> runs after the pointers have
  been changed and recomputes the old parent first, then the new one.
\<close>

definition rb_rotate_left :: "('a tree \<Rightarrow> 'a \<Rightarrow> 'a tree \<Rightarrow> 'a) \<Rightarrow> 'a tree \<Rightarrow> 'a tree" where
  "rb_rotate_left aug t =
     (case t of
        Node a x (Node b y c) \<Rightarrow>
          (let old = Node a (aug a x b) b in Node old (aug old y c) c)
      | _ \<Rightarrow> t)"

definition rb_rotate_right :: "('a tree \<Rightarrow> 'a \<Rightarrow> 'a tree \<Rightarrow> 'a) \<Rightarrow> 'a tree \<Rightarrow> 'a tree" where
  "rb_rotate_right aug t =
     (case t of
        Node (Node a x b) y c \<Rightarrow>
          (let old = Node b (aug b y c) c in Node a (aug a x old) old)
      | _ \<Rightarrow> t)"

fun rb_rotate_at :: "('a tree \<Rightarrow> 'a \<Rightarrow> 'a tree \<Rightarrow> 'a) \<Rightarrow> rb_dir list \<Rightarrow> rb_dir \<Rightarrow> 'a tree \<Rightarrow> 'a tree" where
  "rb_rotate_at aug [] d t =
     (if d = RB_LEFT then rb_rotate_left aug t else rb_rotate_right aug t)"
| "rb_rotate_at aug (p # ps) d Leaf = Leaf"
| "rb_rotate_at aug (RB_LEFT # ps) d (Node l x r) = Node (rb_rotate_at aug ps d l) x r"
| "rb_rotate_at aug (RB_RIGHT # ps) d (Node l x r) = Node l x (rb_rotate_at aug ps d r)"

fun rb_rotations :: "('a tree \<Rightarrow> 'a \<Rightarrow> 'a tree \<Rightarrow> 'a) \<Rightarrow> rb_rotation list \<Rightarrow> 'a tree \<Rightarrow> 'a tree" where
  "rb_rotations aug [] t = t"
| "rb_rotations aug ((p, d) # rs) t = rb_rotations aug rs (rb_rotate_at aug p d t)"

definition rb_rebalance :: "('a tree \<Rightarrow> 'a \<Rightarrow> 'a tree \<Rightarrow> 'a) \<Rightarrow> 'a rb_root \<Rightarrow> 'a rb_root" where
  "rb_rebalance aug root =
     (case rb_sched root of
        [] \<Rightarrow> root
      | s # ss \<Rightarrow> \<lparr>rb_node = rb_rotations aug s (rb_node root), rb_sched = ss\<rparr>)"

text \<open>
  One turn of the loop of \<^verbatim>\<open>scoutfs_item_rb_propagate\<close> at a node, on the way up: when
  the loop is still running (\<open>go\<close>) the node is recomputed, and the loop goes on to the
  parent only if that changed the node.
\<close>

definition rb_propagate_step ::
  "('a tree \<Rightarrow> 'a \<Rightarrow> 'a tree \<Rightarrow> 'a) \<Rightarrow> bool \<Rightarrow> 'a tree \<Rightarrow> 'a \<Rightarrow> 'a tree \<Rightarrow> 'a tree \<times> bool" where
  "rb_propagate_step aug go l x r =
     (if go then (let x' = aug l x r in (Node l x' r, x' \<noteq> x)) else (Node l x r, False))"

text \<open>\<^verbatim>\<open>propagate(rb_parent(node), NULL)\<close> for the node that the locator names.\<close>

fun rb_propagate_from ::
  "('a tree \<Rightarrow> 'a \<Rightarrow> 'a tree \<Rightarrow> 'a) \<Rightarrow> ('a \<Rightarrow> int) \<Rightarrow> 'a tree \<Rightarrow> 'a tree \<times> bool" where
  "rb_propagate_from aug loc Leaf = (Leaf, False)"
| "rb_propagate_from aug loc (Node l x r) =
     (if loc x < 0 then
        (case rb_propagate_from aug loc l of (l', go) \<Rightarrow> rb_propagate_step aug go l' x r)
      else if loc x > 0 then
        (case rb_propagate_from aug loc r of (r', go) \<Rightarrow> rb_propagate_step aug go l x r')
      else (Node l x r, True))"

text \<open>A store through a node pointer.\<close>

fun rb_update_at :: "('a \<Rightarrow> 'a) \<Rightarrow> ('a \<Rightarrow> int) \<Rightarrow> 'a tree \<Rightarrow> 'a tree" where
  "rb_update_at f loc Leaf = Leaf"
| "rb_update_at f loc (Node l x r) =
     (if loc x < 0 then Node (rb_update_at f loc l) x r
      else if loc x > 0 then Node l x (rb_update_at f loc r)
      else Node l (f x) r)"

fun rb_find :: "('a \<Rightarrow> int) \<Rightarrow> 'a tree \<Rightarrow> 'a option" where
  "rb_find loc Leaf = None"
| "rb_find loc (Node l x r) =
     (if loc x < 0 then rb_find loc l
      else if loc x > 0 then rb_find loc r
      else Some x)"

fun rb_first :: "'a tree \<Rightarrow> 'a option" where
  "rb_first Leaf = None"
| "rb_first (Node Leaf x r) = Some x"
| "rb_first (Node (Node ll lx lr) x r) = rb_first (Node ll lx lr)"

text \<open>
  \<^verbatim>\<open>rb_next\<close>: the leftmost node of the right subtree, or else the nearest ancestor that
  is reached from its left child (\<open>up\<close> during the descent).
\<close>

fun rb_next_from :: "('a \<Rightarrow> int) \<Rightarrow> 'a tree \<Rightarrow> 'a option \<Rightarrow> 'a option" where
  "rb_next_from loc Leaf up = None"
| "rb_next_from loc (Node l x r) up =
     (if loc x < 0 then rb_next_from loc l (Some x)
      else if loc x > 0 then rb_next_from loc r up
      else (case r of Leaf \<Rightarrow> up | Node rl rx rr \<Rightarrow> rb_first r))"

definition rb_next :: "('a \<Rightarrow> int) \<Rightarrow> 'a tree \<Rightarrow> 'a option" where
  "rb_next loc t = rb_next_from loc t None"

text \<open>
  The structural part of \<^verbatim>\<open>rb_erase_augmented\<close>. \<open>rb_unlink_leftmost\<close> takes the
  successor out of the right subtree of the erased node (case 3) and runs
  \<^verbatim>\<open>propagate(parent, successor)\<close> on the way back up to that subtree's root.
\<close>

fun rb_unlink_leftmost ::
  "('a tree \<Rightarrow> 'a \<Rightarrow> 'a tree \<Rightarrow> 'a) \<Rightarrow> 'a tree \<Rightarrow> 'a \<Rightarrow> 'a tree \<Rightarrow> 'a \<times> 'a tree \<times> bool" where
  "rb_unlink_leftmost aug Leaf s sr = (s, sr, True)"
| "rb_unlink_leftmost aug (Node ll lx lr) x r =
     (case rb_unlink_leftmost aug ll lx lr of
        (s, l', go) \<Rightarrow> (case rb_propagate_step aug go l' x r of (t, go') \<Rightarrow> (s, t, go')))"

text \<open>
  The erased node has at most one child (case 1): the child takes its place and
  \<^verbatim>\<open>propagate\<close> starts at the parent. Otherwise the in-order successor takes its place:
  the copy callback recomputes the successor while its left pointer is still null and its
  right pointer is the erased node's right child (the successor's own right child in
  case 2), and after the left subtree is attached \<^verbatim>\<open>propagate\<close> starts at the successor.
\<close>

fun rb_unlink ::
  "('a tree \<Rightarrow> 'a \<Rightarrow> 'a tree \<Rightarrow> 'a) \<Rightarrow> ('a \<Rightarrow> int) \<Rightarrow> 'a tree \<Rightarrow> 'a tree \<times> bool" where
  "rb_unlink aug loc Leaf = (Leaf, False)"
| "rb_unlink aug loc (Node l x r) =
     (if loc x < 0 then
        (case rb_unlink aug loc l of (l', go) \<Rightarrow> rb_propagate_step aug go l' x r)
      else if loc x > 0 then
        (case rb_unlink aug loc r of (r', go) \<Rightarrow> rb_propagate_step aug go l x r')
      else
        (case l of
           Leaf \<Rightarrow> (r, True)
         | Node ll lx lr \<Rightarrow>
             (case r of
                Leaf \<Rightarrow> (l, True)
              | Node Leaf s sr \<Rightarrow> rb_propagate_step aug True l (aug Leaf s sr) sr
              | Node (Node cll clx clr) cx cr \<Rightarrow>
                  (case rb_unlink_leftmost aug (Node cll clx clr) cx cr of
                     (s, r', go) \<Rightarrow> rb_propagate_step aug True l (aug Leaf s r) r'))))"

definition rb_erase_augmented ::
  "('a tree \<Rightarrow> 'a \<Rightarrow> 'a tree \<Rightarrow> 'a) \<Rightarrow> ('a \<Rightarrow> int) \<Rightarrow> 'a rb_root \<Rightarrow> 'a rb_root" where
  "rb_erase_augmented aug loc root =
     rb_rebalance aug (root\<lparr>rb_node := fst (rb_unlink aug loc (rb_node root))\<rparr>)"

definition rb_insert_augmented ::
  "('a tree \<Rightarrow> 'a \<Rightarrow> 'a tree \<Rightarrow> 'a) \<Rightarrow> 'a rb_root \<Rightarrow> 'a rb_root" where
  "rb_insert_augmented aug root = rb_rebalance aug root"

definition rb_erase :: "('a \<Rightarrow> int) \<Rightarrow> 'a rb_root \<Rightarrow> 'a rb_root" where
  "rb_erase loc root = rb_erase_augmented (\<lambda>l x r. x) loc root"

definition rb_insert_color :: "'a rb_root \<Rightarrow> 'a rb_root" where
  "rb_insert_color root = rb_insert_augmented (\<lambda>l x r. x) root"

section \<open>Cached items and their dirty bits\<close>

text \<open>
  \<^verbatim>\<open>struct cached_item\<close>: the tree node itself is the position of the entry in the tree,
  \<open>dirty\<close> is the \<^verbatim>\<open>long\<close> that holds the three bits. \<^verbatim>\<open>struct cached_range\<close> holds
  the two ends of a range.
\<close>

record cached_item =
  dirty :: "64 word"
  deletion :: bool
  key :: key_buf
  val :: kvec

record cached_range =
  range_start :: key_buf
  range_end :: key_buf

record item_cache =
  items :: "cached_item rb_root"
  ranges :: "cached_range rb_root"
  nr_dirty_items :: int
  dirty_key_bytes :: int
  dirty_val_bytes :: int

definition ITEM_DIRTY :: "64 word" where "ITEM_DIRTY = 1"
definition LEFT_DIRTY :: "64 word" where "LEFT_DIRTY = 2"
definition RIGHT_DIRTY :: "64 word" where "RIGHT_DIRTY = 4"

definition SCOUTFS_ITEM_FLAG_DELETION :: byte where
  "SCOUTFS_ITEM_FLAG_DELETION = 1"

definition item_flags :: "cached_item \<Rightarrow> byte" where
  "item_flags item = (if deletion item then SCOUTFS_ITEM_FLAG_DELETION else 0)"

text \<open>
  \<^verbatim>\<open>alloc_item\<close>: \<^verbatim>\<open>kzalloc\<close> leaves the dirty bits and the deletion flag zero. The
  first argument says whether the allocations of the call succeed.
\<close>

definition alloc_item :: "bool \<Rightarrow> key_buf \<Rightarrow> kvec \<Rightarrow> cached_item option" where
  "alloc_item mem k v =
     (if mem then Some \<lparr>dirty = 0, deletion = False, key = k, val = v\<rparr> else None)"

text \<open>A pointer to the item with a given key: the descent that \<^verbatim>\<open>walk_items\<close> makes.\<close>

definition item_at :: "key_buf \<Rightarrow> cached_item \<Rightarrow> int" where
  "item_at k item = scoutfs_key_compare k (key item)"

fun walk_items_from ::
  "cached_item tree \<Rightarrow> key_buf \<Rightarrow> cached_item option \<Rightarrow> cached_item option \<Rightarrow>
   cached_item option \<times> cached_item option \<times> cached_item option" where
  "walk_items_from Leaf k prev nxt = (None, prev, nxt)"
| "walk_items_from (Node l item r) k prev nxt =
     (let cmp = scoutfs_key_compare k (key item) in
      if cmp < 0 then walk_items_from l k prev (Some item)
      else if cmp > 0 then walk_items_from r k (Some item) nxt
      else (Some item, prev, nxt))"

definition walk_items ::
  "cached_item rb_root \<Rightarrow> key_buf \<Rightarrow> cached_item option \<times> cached_item option \<times> cached_item option" where
  "walk_items root k = walk_items_from (rb_node root) k None None"

definition find_item :: "cached_item rb_root \<Rightarrow> key_buf \<Rightarrow> cached_item option" where
  "find_item root k =
     (case walk_items root k of
        (Some item, prev, nxt) \<Rightarrow> if deletion item then None else Some item
      | (None, prev, nxt) \<Rightarrow> None)"

definition next_item :: "cached_item rb_root \<Rightarrow> key_buf \<Rightarrow> cached_item option" where
  "next_item root k =
     (case walk_items root k of
        (Some item, prev, nxt) \<Rightarrow> Some item
      | (None, prev, nxt) \<Rightarrow> nxt)"

fun node_dirty_bit :: "cached_item tree \<Rightarrow> 64 word \<Rightarrow> 64 word" where
  "node_dirty_bit Leaf d = 0"
| "node_dirty_bit (Node l item r) d = (if dirty item \<noteq> 0 then d else 0)"

definition compute_item_dirty :: "cached_item tree \<Rightarrow> cached_item \<Rightarrow> cached_item tree \<Rightarrow> 64 word" where
  "compute_item_dirty l item r =
     (dirty item AND ITEM_DIRTY) OR node_dirty_bit l LEFT_DIRTY OR node_dirty_bit r RIGHT_DIRTY"

text \<open>
  What \<^verbatim>\<open>scoutfs_item_rb_copy\<close> does to its new node, \<^verbatim>\<open>scoutfs_item_rb_rotate\<close> to
  both of its nodes, and one turn of \<^verbatim>\<open>scoutfs_item_rb_propagate\<close> to the node it
  visits.
\<close>

definition scoutfs_item_rb_cb :: "cached_item tree \<Rightarrow> cached_item \<Rightarrow> cached_item tree \<Rightarrow> cached_item" where
  "scoutfs_item_rb_cb l item r = item\<lparr>dirty := compute_item_dirty l item r\<rparr>"

definition update_dirty_parents :: "key_buf \<Rightarrow> cached_item tree \<Rightarrow> cached_item tree" where
  "update_dirty_parents k t = fst (rb_propagate_from scoutfs_item_rb_cb (item_at k) t)"

text \<open>
  \<^verbatim>\<open>mark_item_dirty\<close> and \<^verbatim>\<open>clear_item_dirty\<close>. The item is named by its key; a key
  that names no node of the tree stands for \<^verbatim>\<open>RB_EMPTY_NODE\<close>, where both return at
  once. The \<^verbatim>\<open>WARN_ON_ONCE\<close> on negative counters only logs.
\<close>

definition mark_item_dirty :: "item_cache \<Rightarrow> key_buf \<Rightarrow> item_cache" where
  "mark_item_dirty cac k =
     (case rb_find (item_at k) (rb_node (items cac)) of
        None \<Rightarrow> cac
      | Some item \<Rightarrow>
          if dirty item AND ITEM_DIRTY \<noteq> 0 then cac
          else cac\<lparr>items := (items cac)\<lparr>rb_node :=
                       update_dirty_parents k
                         (rb_update_at (\<lambda>i. i\<lparr>dirty := dirty i OR ITEM_DIRTY\<rparr>) (item_at k)
                            (rb_node (items cac)))\<rparr>,
                   nr_dirty_items := nr_dirty_items cac + 1,
                   dirty_key_bytes := dirty_key_bytes cac + int (key_len (key item)),
                   dirty_val_bytes := dirty_val_bytes cac + int (scoutfs_kvec_length (val item))\<rparr>)"

definition clear_item_dirty :: "item_cache \<Rightarrow> key_buf \<Rightarrow> item_cache" where
  "clear_item_dirty cac k =
     (case rb_find (item_at k) (rb_node (items cac)) of
        None \<Rightarrow> cac
      | Some item \<Rightarrow>
          if dirty item AND ITEM_DIRTY = 0 then cac
          else cac\<lparr>items := (items cac)\<lparr>rb_node :=
                       update_dirty_parents k
                         (rb_update_at (\<lambda>i. i\<lparr>dirty := dirty i AND NOT ITEM_DIRTY\<rparr>) (item_at k)
                            (rb_node (items cac)))\<rparr>,
                   nr_dirty_items := nr_dirty_items cac - 1,
                   dirty_key_bytes := dirty_key_bytes cac - int (key_len (key item)),
                   dirty_val_bytes := dirty_val_bytes cac - int (scoutfs_kvec_length (val item))\<rparr>)"

definition erase_item :: "item_cache \<Rightarrow> key_buf \<Rightarrow> item_cache" where
  "erase_item cac k =
     (let cac' = clear_item_dirty cac k
      in cac'\<lparr>items := rb_erase_augmented scoutfs_item_rb_cb (item_at k) (items cac')\<rparr>)"

text \<open>
  The descent of \<^verbatim>\<open>insert_item\<close>: the tree as the loop leaves it (with the summary bits
  it sets on the way when the new item is dirty, and with the new item linked by
  \<^verbatim>\<open>rb_link_node\<close> if a null slot was reached), and the item with an equal key if one
  stopped the loop.
\<close>

fun insert_item_descend :: "cached_item \<Rightarrow> cached_item tree \<Rightarrow> cached_item tree \<times> cached_item option" where
  "insert_item_descend ins Leaf = (Node Leaf ins Leaf, None)"
| "insert_item_descend ins (Node l item r) =
     (let cmp = scoutfs_key_compare (key ins) (key item) in
      if cmp < 0 then
        (case insert_item_descend ins l of
           (l', hit) \<Rightarrow>
             (Node l' (if dirty ins \<noteq> 0 then item\<lparr>dirty := dirty item OR LEFT_DIRTY\<rparr> else item) r, hit))
      else if cmp > 0 then
        (case insert_item_descend ins r of
           (r', hit) \<Rightarrow>
             (Node l (if dirty ins \<noteq> 0 then item\<lparr>dirty := dirty item OR RIGHT_DIRTY\<rparr> else item) r', hit))
      else (Node l item r, Some item))"

lemma key_compare_eq0: "scoutfs_key_compare a b = 0 \<longleftrightarrow> a = b"
  by (induction a b rule: scoutfs_key_compare.induct) auto

lemma key_compare_lt: "scoutfs_key_compare a b < 0 \<longleftrightarrow> a < b"
  by (induction a b rule: scoutfs_key_compare.induct) auto

lemma key_compare_gt: "scoutfs_key_compare a b > 0 \<longleftrightarrow> b < a"
  by (induction a b rule: scoutfs_key_compare.induct) auto

lemma size_rb_rotate_at: "size (rb_rotate_at aug p d t) = size t"
  by (induction aug p d t rule: rb_rotate_at.induct)
     (auto simp: rb_rotate_left_def rb_rotate_right_def Let_def split: tree.splits)

lemma size_rb_rotations: "size (rb_rotations aug rs t) = size t"
  by (induction aug rs t rule: rb_rotations.induct) (auto simp: size_rb_rotate_at)

lemma size_rb_rebalance: "size (rb_node (rb_rebalance aug root)) = size (rb_node root)"
  by (auto simp: rb_rebalance_def size_rb_rotations split: list.splits)

lemma size_propagate_step: "size (fst (rb_propagate_step aug go l x r)) = Suc (size l + size r)"
  by (auto simp: rb_propagate_step_def Let_def)

lemma size_propagate_from: "size (fst (rb_propagate_from aug loc t)) = size t"
  by (induction t) (auto simp: size_propagate_step split: prod.splits)

lemma size_update_at: "size (rb_update_at f loc t) = size t"
  by (induction t) auto

lemma size_unlink_leftmost:
  "rb_unlink_leftmost aug l x r = (s, t, go) \<Longrightarrow> size t = size l + size r"
proof (induction aug l x r arbitrary: s t go rule: rb_unlink_leftmost.induct)
  case (1 aug s sr)
  then show ?case by simp
next
  case (2 aug ll lx lr x r)
  obtain s' l' go' where u: "rb_unlink_leftmost aug ll lx lr = (s', l', go')"
    by (cases "rb_unlink_leftmost aug ll lx lr") auto
  obtain t' g where p: "rb_propagate_step aug go' l' x r = (t', g)"
    by (cases "rb_propagate_step aug go' l' x r") auto
  from 2(2) u p have "t = t'" by simp
  moreover from p have "size t' = Suc (size l' + size r)"
    using size_propagate_step[of aug go' l' x r] by simp
  moreover from 2(1)[OF u] have "size l' = size ll + size lr" .
  ultimately show ?case by simp
qed

lemma size_unlink:
  "rb_find loc t \<noteq> None \<Longrightarrow> Suc (size (fst (rb_unlink aug loc t))) = size t"
proof (induction t)
  case Leaf
  then show ?case by simp
next
  case (Node l x r)
  show ?case
  proof (cases "loc x < 0")
    case True
    with Node show ?thesis
      by (auto simp: size_propagate_step split: prod.splits)
  next
    case nl: False
    show ?thesis
    proof (cases "loc x > 0")
      case True
      with nl Node show ?thesis
        by (auto simp: size_propagate_step split: prod.splits)
    next
      case False
      show ?thesis
      proof (cases l)
        case Leaf
        with nl False show ?thesis by simp
      next
        case ln: (Node ll lx lr)
        show ?thesis
        proof (cases r)
          case Leaf
          with nl False ln show ?thesis by simp
        next
          case rn: (Node rl s sr)
          show ?thesis
          proof (cases rl)
            case Leaf
            with nl False ln rn show ?thesis
              by (simp add: size_propagate_step)
          next
            case (Node cll clx clr)
            obtain s' r' go where u: "rb_unlink_leftmost aug (Node cll clx clr) s sr = (s', r', go)"
              by (cases "rb_unlink_leftmost aug (Node cll clx clr) s sr") auto
            from size_unlink_leftmost[OF u] have "size r' = size (Node cll clx clr) + size sr" .
            with nl False ln rn Node u show ?thesis
              by (simp add: size_propagate_step)
          qed
        qed
      qed
    qed
  qed
qed

lemma hit_propagate_from:
  assumes "\<And>l x r. loc (aug l x r) = loc x"
  shows "(rb_find loc (fst (rb_propagate_from aug loc' t)) = None) = (rb_find loc t = None)"
proof (induction t)
  case Leaf
  then show ?case by simp
next
  case (Node l x r)
  show ?case
  proof (cases "loc' x < 0")
    case True
    obtain l' go where p: "rb_propagate_from aug loc' l = (l', go)"
      by (cases "rb_propagate_from aug loc' l") auto
    obtain t g where q: "rb_propagate_step aug go l' x r = (t, g)"
      by (cases "rb_propagate_step aug go l' x r") auto
    from q assms have "\<exists>x'. t = Node l' x' r \<and> loc x' = loc x"
      by (auto simp: rb_propagate_step_def Let_def split: if_splits)
    then obtain x' where "t = Node l' x' r" "loc x' = loc x"
      by auto
    with True p q Node(1) show ?thesis by simp
  next
    case nl: False
    show ?thesis
    proof (cases "loc' x > 0")
      case True
      obtain r' go where p: "rb_propagate_from aug loc' r = (r', go)"
        by (cases "rb_propagate_from aug loc' r") auto
      obtain t g where q: "rb_propagate_step aug go l x r' = (t, g)"
        by (cases "rb_propagate_step aug go l x r'") auto
      from q assms have "\<exists>x'. t = Node l x' r' \<and> loc x' = loc x"
        by (auto simp: rb_propagate_step_def Let_def split: if_splits)
      then obtain x' where "t = Node l x' r'" "loc x' = loc x"
        by auto
      with nl True p q Node(2) show ?thesis by simp
    next
      case False
      with nl show ?thesis by simp
    qed
  qed
qed

lemma hit_update_at:
  "(\<And>x. loc (f x) = loc x) \<Longrightarrow>
   (rb_find loc (rb_update_at f loc' t) = None) = (rb_find loc t = None)"
  by (induction t) auto

lemma item_at_cb [simp]: "item_at k (scoutfs_item_rb_cb l x r) = item_at k x"
  by (simp add: item_at_def scoutfs_item_rb_cb_def)

lemma item_at_dirty_update [simp]: "item_at k (x\<lparr>dirty := d\<rparr>) = item_at k x"
  by (simp add: item_at_def)

lemma hit_clear_item_dirty:
  "(rb_find (item_at k') (rb_node (items (clear_item_dirty cac k))) = None) =
   (rb_find (item_at k') (rb_node (items cac)) = None)"
  by (simp add: clear_item_dirty_def update_dirty_parents_def hit_propagate_from hit_update_at
           split: option.splits)

lemma size_clear_item_dirty:
  "size (rb_node (items (clear_item_dirty cac k))) = size (rb_node (items cac))"
  by (simp add: clear_item_dirty_def update_dirty_parents_def size_propagate_from size_update_at
           split: option.splits)

lemma size_erase_item:
  "rb_find (item_at k) (rb_node (items cac)) \<noteq> None \<Longrightarrow>
   Suc (size (rb_node (items (erase_item cac k)))) = size (rb_node (items cac))"
  using size_unlink[of "item_at k" "rb_node (items (clear_item_dirty cac k))" scoutfs_item_rb_cb]
  by (simp add: erase_item_def Let_def rb_erase_augmented_def size_rb_rebalance
        hit_clear_item_dirty size_clear_item_dirty)

lemma key_compare_same [simp]: "scoutfs_key_compare k k = 0"
  by (simp add: key_compare_eq0)

lemma insert_item_descend_hit:
  "insert_item_descend ins t = (t', Some item) \<Longrightarrow>
   size t' = size t \<and> key item = key ins \<and> rb_find (item_at (key ins)) t' = Some item"
proof (induction t arbitrary: t')
  case Leaf
  then show ?case by simp
next
  case (Node l x r)
  show ?case
  proof (cases "scoutfs_key_compare (key ins) (key x) < 0")
    case True
    with Node(3) obtain l' where "insert_item_descend ins l = (l', Some item)"
      and t': "t' = Node l' (if dirty ins \<noteq> 0 then x\<lparr>dirty := dirty x OR LEFT_DIRTY\<rparr> else x) r"
      by (auto simp: Let_def split: prod.splits)
    from Node(1)[OF this(1)] True t' show ?thesis
      by (simp add: item_at_def)
  next
    case nl: False
    show ?thesis
    proof (cases "scoutfs_key_compare (key ins) (key x) > 0")
      case True
      with nl Node(3) obtain r' where "insert_item_descend ins r = (r', Some item)"
        and t': "t' = Node l (if dirty ins \<noteq> 0 then x\<lparr>dirty := dirty x OR RIGHT_DIRTY\<rparr> else x) r'"
        by (auto simp: Let_def split: prod.splits)
      from Node(2)[OF this(1)] nl True t' show ?thesis
        by (simp add: item_at_def)
    next
      case False
      with nl have "scoutfs_key_compare (key ins) (key x) = 0" by simp
      with nl False Node(3) show ?thesis
        by (auto simp: Let_def item_at_def key_compare_eq0)
    qed
  qed
qed

function insert_item :: "item_cache \<Rightarrow> cached_item \<Rightarrow> (errno + unit) \<times> item_cache" where
  "insert_item cac ins =
     (case insert_item_descend ins (rb_node (items cac)) of
        (t, None) \<Rightarrow>
          (Inr (), cac\<lparr>items := rb_insert_augmented scoutfs_item_rb_cb ((items cac)\<lparr>rb_node := t\<rparr>)\<rparr>)
      | (t, Some item) \<Rightarrow>
          if \<not> deletion item then (Inl EEXIST, cac\<lparr>items := (items cac)\<lparr>rb_node := t\<rparr>\<rparr>)
          else insert_item (erase_item (cac\<lparr>items := (items cac)\<lparr>rb_node := t\<rparr>\<rparr>) (key item)) ins)"
  by pat_completeness auto
termination
  apply (relation "measure (\<lambda>(cac, ins). size (rb_node (items cac)))")
   apply simp
  apply clarsimp
  subgoal for cac ins x x2
    using insert_item_descend_hit[of ins "rb_node (items cac)" x x2]
      size_erase_item[of "key x2" "cac\<lparr>items := (items cac)\<lparr>rb_node := x\<rparr>\<rparr>"]
    by simp
  done

declare insert_item.simps [simp del]

section \<open>Cached ranges\<close>

text \<open>
  \<^verbatim>\<open>check_range\<close>: whether a cached range covers the key, and the end of that range, or
  else the start of the next cached range (the maximal key if there is none). The maximal
  key that \<^verbatim>\<open>scoutfs_key_set_max\<close> writes is a parameter.
\<close>

fun check_range_from ::
  "key_buf \<Rightarrow> cached_range tree \<Rightarrow> key_buf \<Rightarrow> cached_range option \<Rightarrow> bool \<times> key_buf" where
  "check_range_from kmax Leaf k nxt =
     (False, case nxt of Some n \<Rightarrow> range_start n | None \<Rightarrow> kmax)"
| "check_range_from kmax (Node l rng r) k nxt =
     (let cmp = scoutfs_key_compare_ranges k k (range_start rng) (range_end rng) in
      if cmp < 0 then check_range_from kmax l k (Some rng)
      else if cmp > 0 then check_range_from kmax r k nxt
      else (True, range_end rng))"

definition check_range :: "key_buf \<Rightarrow> cached_range rb_root \<Rightarrow> key_buf \<Rightarrow> bool \<times> key_buf" where
  "check_range kmax root k = check_range_from kmax (rb_node root) k None"

text \<open>A pointer to the range that the descent of \<^verbatim>\<open>insert_range\<close> stops at.\<close>

definition range_at :: "cached_range \<Rightarrow> cached_range \<Rightarrow> int" where
  "range_at ins rng =
     scoutfs_key_compare_ranges (range_start ins) (range_end ins) (range_start rng) (range_end rng)"

fun insert_range_descend ::
  "cached_range \<Rightarrow> cached_range tree \<Rightarrow> cached_range tree \<times> cached_range option" where
  "insert_range_descend ins Leaf = (Node Leaf ins Leaf, None)"
| "insert_range_descend ins (Node l rng r) =
     (let cmp = range_at ins rng in
      if cmp < 0 then
        (case insert_range_descend ins l of (l', hit) \<Rightarrow> (Node l' rng r, hit))
      else if cmp > 0 then
        (case insert_range_descend ins r of (r', hit) \<Rightarrow> (Node l rng r', hit))
      else (Node l rng r, Some rng))"

lemma insert_range_descend_hit:
  "insert_range_descend ins t = (t', Some rng) \<Longrightarrow>
   t' = t \<and> range_at ins rng = 0 \<and> rb_find (range_at ins) t = Some rng"
  by (induction t arbitrary: t') (auto simp: Let_def split: if_splits prod.splits)

lemma size_rb_erase:
  "rb_find loc (rb_node root) \<noteq> None \<Longrightarrow>
   Suc (size (rb_node (rb_erase loc root))) = size (rb_node root)"
  by (simp add: rb_erase_def rb_erase_augmented_def size_rb_rebalance size_unlink)

function insert_range :: "cached_range rb_root \<Rightarrow> cached_range \<Rightarrow> cached_range rb_root" where
  "insert_range root ins =
     (case insert_range_descend ins (rb_node root) of
        (t, None) \<Rightarrow> rb_insert_color (root\<lparr>rb_node := t\<rparr>)
      | (t, Some rng) \<Rightarrow>
          (let start_cmp = scoutfs_key_compare (range_start ins) (range_start rng);
               end_cmp = scoutfs_key_compare (range_end ins) (range_end rng)
           in if start_cmp \<ge> 0 \<and> end_cmp \<le> 0 then root
              else insert_range (rb_erase (range_at ins) root)
                     (if start_cmp < 0 \<and> end_cmp < 0 then ins\<lparr>range_end := range_end rng\<rparr>
                      else if start_cmp > 0 \<and> end_cmp > 0 then ins\<lparr>range_start := range_start rng\<rparr>
                      else ins)))"
  by pat_completeness auto
termination
  apply (relation "measure (\<lambda>(root, ins). size (rb_node root))")
   apply simp
  apply clarsimp
  subgoal for root ins x x2
    using insert_range_descend_hit[of ins "rb_node root" x x2]
      size_rb_erase[of "range_at ins" root]
    by simp
  done

declare insert_range.simps [simp del]

section \<open>The public operations\<close>

text \<open>
  The collaborators that are not part of item.c are parameters: the maximal key, the
  segment reader behind \<^verbatim>\<open>scoutfs_manifest_read_items\<close> and \<^verbatim>\<open>scoutfs_seg_fits_single\<close>.
  Every operation takes the cache and returns it updated; the spin lock is not modelled.
  Operations that allocate take a flag that says whether their allocations succeed.
\<close>

record externals =
  key_max :: key_buf
  manifest_read :: "key_buf \<Rightarrow> key_buf \<Rightarrow> errno + ((key_buf \<times> kvec) list \<times> key_buf \<times> key_buf)"
  seg_fits_single :: "32 word \<Rightarrow> 32 word \<Rightarrow> 32 word \<Rightarrow> bool"

definition scoutfs_item_setup :: item_cache where
  "scoutfs_item_setup =
     \<lparr>items = RB_ROOT, ranges = RB_ROOT, nr_dirty_items = 0, dirty_key_bytes = 0,
      dirty_val_bytes = 0\<rparr>"

definition scoutfs_item_create ::
  "bool \<Rightarrow> item_cache \<Rightarrow> key_buf \<Rightarrow> kvec \<Rightarrow> (errno + unit) \<times> item_cache" where
  "scoutfs_item_create mem cac k v =
     (case alloc_item mem k v of
        None \<Rightarrow> (Inl ENOMEM, cac)
      | Some item \<Rightarrow>
          (case insert_item cac item of
             (Inr u, cac') \<Rightarrow> (Inr (), mark_item_dirty cac' (key item))
           | (Inl e, cac') \<Rightarrow> (Inl e, cac')))"

text \<open>The batch list is the list of its items, head first.\<close>

definition scoutfs_item_add_batch ::
  "bool \<Rightarrow> cached_item list \<Rightarrow> key_buf \<Rightarrow> kvec \<Rightarrow> (errno + unit) \<times> cached_item list" where
  "scoutfs_item_add_batch mem list k v =
     (case alloc_item mem k v of
        Some item \<Rightarrow> (Inr (), list @ [item])
      | None \<Rightarrow> (Inl ENOMEM, list))"

fun scoutfs_item_free_batch :: "cached_item list \<Rightarrow> cached_item list" where
  "scoutfs_item_free_batch [] = []"
| "scoutfs_item_free_batch (item # rest) = scoutfs_item_free_batch rest"

text \<open>
  The loop of \<^verbatim>\<open>scoutfs_item_insert_batch\<close>: the entries still to visit, and the entries
  that \<^verbatim>\<open>list_add\<close> has put back at the head of the list.
\<close>

fun insert_batch_items ::
  "item_cache \<Rightarrow> cached_item list \<Rightarrow> cached_item list \<Rightarrow> item_cache \<times> cached_item list" where
  "insert_batch_items cac [] kept = (cac, kept)"
| "insert_batch_items cac (item # rest) kept =
     (case insert_item cac item of
        (Inr u, cac') \<Rightarrow> insert_batch_items cac' rest kept
      | (Inl e, cac') \<Rightarrow> insert_batch_items cac' rest (item # kept))"

text \<open>The third component of the result is the caller's list as the call leaves it.\<close>

definition scoutfs_item_insert_batch ::
  "bool \<Rightarrow> item_cache \<Rightarrow> cached_item list \<Rightarrow> key_buf \<Rightarrow> key_buf \<Rightarrow>
   (errno + unit) \<times> item_cache \<times> cached_item list" where
  "scoutfs_item_insert_batch mem cac list start end_key =
     (if scoutfs_key_compare start end_key > 0 then (Inl EINVAL, cac, list)
      else if \<not> mem then (Inl ENOMEM, cac, scoutfs_item_free_batch list)
      else
        (let cac1 = cac\<lparr>ranges := insert_range (ranges cac)
                                     \<lparr>range_start = start, range_end = end_key\<rparr>\<rparr>
         in case insert_batch_items cac1 list [] of
              (cac2, kept) \<Rightarrow> (Inr (), cac2, scoutfs_item_free_batch kept)))"

text \<open>
  Modelled from the spec: \<^verbatim>\<open>scoutfs_manifest_read_items\<close> (manifest.c is not among the
  sources). The reader fails, or it stages the items it read with
  \<^verbatim>\<open>scoutfs_item_add_batch\<close> and hands them to \<^verbatim>\<open>scoutfs_item_insert_batch\<close> together
  with the range they cover.
\<close>

fun read_batch :: "(key_buf \<times> kvec) list \<Rightarrow> cached_item list \<Rightarrow> cached_item list" where
  "read_batch [] list = list"
| "read_batch ((k, v) # kvs) list = read_batch kvs (snd (scoutfs_item_add_batch True list k v))"

definition scoutfs_manifest_read_items ::
  "externals \<Rightarrow> item_cache \<Rightarrow> key_buf \<Rightarrow> key_buf \<Rightarrow> (errno + unit) \<times> item_cache" where
  "scoutfs_manifest_read_items ext cac k end_key =
     (case manifest_read ext k end_key of
        Inl e \<Rightarrow> (Inl e, cac)
      | Inr (kvs, s, e) \<Rightarrow>
          (case scoutfs_item_insert_batch True cac (read_batch kvs []) s e of
             (ret, cac', list) \<Rightarrow> (ret, cac')))"

text \<open>
  The read loops: a miss in an uncached hole (\<^verbatim>\<open>-ENODATA\<close>) asks the reader and tries
  again. A loop that the reader never satisfies does not return; that is \<open>None\<close>.
\<close>

partial_function (option) lookup_loop ::
  "externals \<Rightarrow> item_cache \<Rightarrow> key_buf \<Rightarrow> nat \<Rightarrow> ((errno + byte list) \<times> item_cache) option" where
  "lookup_loop ext cac k cap =
     (case find_item (items cac) k of
        Some item \<Rightarrow> Some (Inr (scoutfs_kvec_memcpy cap (val item)), cac)
      | None \<Rightarrow>
          (case check_range (key_max ext) (ranges cac) k of
             (cached, end_key) \<Rightarrow>
               if cached then Some (Inl ENOENT, cac)
               else
               (case scoutfs_manifest_read_items ext cac k end_key of
                  (Inl e, cac') \<Rightarrow> Some (Inl e, cac')
                | (Inr u, cac') \<Rightarrow> lookup_loop ext cac' k cap)))"

declare lookup_loop.simps [code]

definition scoutfs_item_lookup ::
  "bool \<Rightarrow> externals \<Rightarrow> item_cache \<Rightarrow> key_buf \<Rightarrow> nat \<Rightarrow> ((errno + byte list) \<times> item_cache) option" where
  "scoutfs_item_lookup mem ext cac k cap =
     (if \<not> mem then Some (Inl ENOMEM, cac) else lookup_loop ext cac k cap)"

partial_function (option) dirty_loop ::
  "externals \<Rightarrow> item_cache \<Rightarrow> key_buf \<Rightarrow> ((errno + unit) \<times> item_cache) option" where
  "dirty_loop ext cac k =
     (case find_item (items cac) k of
        Some item \<Rightarrow> Some (Inr (), mark_item_dirty cac (key item))
      | None \<Rightarrow>
          (case check_range (key_max ext) (ranges cac) k of
             (cached, end_key) \<Rightarrow>
               if cached then Some (Inl ENOENT, cac)
               else
               (case scoutfs_manifest_read_items ext cac k end_key of
                  (Inl e, cac') \<Rightarrow> Some (Inl e, cac')
                | (Inr u, cac') \<Rightarrow> dirty_loop ext cac' k)))"

declare dirty_loop.simps [code]

definition scoutfs_item_dirty ::
  "bool \<Rightarrow> externals \<Rightarrow> item_cache \<Rightarrow> key_buf \<Rightarrow> ((errno + unit) \<times> item_cache) option" where
  "scoutfs_item_dirty mem ext cac k =
     (if \<not> mem then Some (Inl ENOMEM, cac) else dirty_loop ext cac k)"

text \<open>\<^verbatim>\<open>scoutfs_kvec_swap(up_val, item->val)\<close> leaves the new value in the item.\<close>

definition set_item_val :: "item_cache \<Rightarrow> key_buf \<Rightarrow> kvec \<Rightarrow> item_cache" where
  "set_item_val cac k v =
     cac\<lparr>items := (items cac)\<lparr>rb_node :=
            rb_update_at (\<lambda>i. i\<lparr>val := v\<rparr>) (item_at k) (rb_node (items cac))\<rparr>\<rparr>"

partial_function (option) update_loop ::
  "externals \<Rightarrow> item_cache \<Rightarrow> key_buf \<Rightarrow> kvec \<Rightarrow> ((errno + unit) \<times> item_cache) option" where
  "update_loop ext cac k v =
     (case find_item (items cac) k of
        Some item \<Rightarrow>
          Some (Inr (),
                mark_item_dirty (set_item_val (clear_item_dirty cac (key item)) (key item) v)
                  (key item))
      | None \<Rightarrow>
          (case check_range (key_max ext) (ranges cac) k of
             (cached, end_key) \<Rightarrow>
               if cached then Some (Inl ENOENT, cac)
               else
               (case scoutfs_manifest_read_items ext cac k end_key of
                  (Inl e, cac') \<Rightarrow> Some (Inl e, cac')
                | (Inr u, cac') \<Rightarrow> update_loop ext cac' k v)))"

declare update_loop.simps [code]

definition scoutfs_item_update ::
  "bool \<Rightarrow> externals \<Rightarrow> item_cache \<Rightarrow> key_buf \<Rightarrow> kvec \<Rightarrow> ((errno + unit) \<times> item_cache) option" where
  "scoutfs_item_update mem ext cac k v =
     (if \<not> mem then Some (Inl ENOMEM, cac) else update_loop ext cac k v)"

text \<open>
  \<^verbatim>\<open>become_deletion_item\<close>: the value moves to the caller's \<^verbatim>\<open>del_val\<close>, which the
  caller frees, the item keeps the null value and the deletion flag, and is marked dirty.
\<close>

definition become_deletion_item :: "item_cache \<Rightarrow> key_buf \<Rightarrow> item_cache" where
  "become_deletion_item cac k =
     mark_item_dirty
       (cac\<lparr>items := (items cac)\<lparr>rb_node :=
              rb_update_at (\<lambda>i. i\<lparr>val := None, deletion := True\<rparr>) (item_at k)
                (rb_node (items cac))\<rparr>\<rparr>) k"

partial_function (option) delete_loop ::
  "externals \<Rightarrow> item_cache \<Rightarrow> key_buf \<Rightarrow> ((errno + unit) \<times> item_cache) option" where
  "delete_loop ext cac k =
     (case find_item (items cac) k of
        Some item \<Rightarrow> Some (Inr (), become_deletion_item cac (key item))
      | None \<Rightarrow>
          (case check_range (key_max ext) (ranges cac) k of
             (cached, end_key) \<Rightarrow>
               if cached then Some (Inl ENOENT, cac)
               else
               (case scoutfs_manifest_read_items ext cac k end_key of
                  (Inl e, cac') \<Rightarrow> Some (Inl e, cac')
                | (Inr u, cac') \<Rightarrow> delete_loop ext cac' k)))"

declare delete_loop.simps [code]

definition scoutfs_item_delete ::
  "bool \<Rightarrow> externals \<Rightarrow> item_cache \<Rightarrow> key_buf \<Rightarrow> ((errno + unit) \<times> item_cache) option" where
  "scoutfs_item_delete mem ext cac k =
     (if \<not> mem then Some (Inl ENOMEM, cac) else delete_loop ext cac k)"

definition scoutfs_item_delete_dirty :: "item_cache \<Rightarrow> key_buf \<Rightarrow> item_cache" where
  "scoutfs_item_delete_dirty cac k =
     (case find_item (items cac) k of
        Some item \<Rightarrow> become_deletion_item cac (key item)
      | None \<Rightarrow> cac)"

text \<open>
  \<^verbatim>\<open>item_for_next\<close>: the loop walks the tree with \<^verbatim>\<open>rb_next\<close> from the item that
  \<^verbatim>\<open>next_item\<close> found.
\<close>

partial_function (option) item_for_next_loop ::
  "cached_item rb_root \<Rightarrow> key_buf \<Rightarrow> cached_item option \<Rightarrow> cached_item option option" where
  "item_for_next_loop root last_key item =
     (case item of
        None \<Rightarrow> Some None
      | Some i \<Rightarrow>
          if scoutfs_key_compare (key i) last_key > 0 then Some None
          else if \<not> deletion i then Some (Some i)
          else item_for_next_loop root last_key (rb_next (item_at (key i)) (rb_node root)))"

declare item_for_next_loop.simps [code]

definition item_for_next ::
  "cached_item rb_root \<Rightarrow> key_buf \<Rightarrow> key_buf \<Rightarrow> key_buf \<Rightarrow> cached_item option option" where
  "item_for_next root k range_end_key last_key =
     item_for_next_loop root
       (if scoutfs_key_compare range_end_key last_key < 0 then range_end_key else last_key)
       (next_item root k)"

text \<open>
  \<^verbatim>\<open>scoutfs_item_next\<close>: the caller's value vector may be null (\<open>cap = None\<close>). On
  success the result holds the found key, which the C code copies over the caller's key,
  and the bytes copied.
\<close>

partial_function (option) next_loop ::
  "externals \<Rightarrow> item_cache \<Rightarrow> key_buf \<Rightarrow> key_buf \<Rightarrow> nat option \<Rightarrow>
   ((errno + key_buf \<times> byte list) \<times> item_cache) option" where
  "next_loop ext cac k last_key cap =
     (case check_range (key_max ext) (ranges cac) k of
        (cached, range_end_key) \<Rightarrow>
          Option.bind (if cached then item_for_next (items cac) k range_end_key last_key else Some None)
            (\<lambda>found. case found of
               Some item \<Rightarrow>
                 Some (Inr (key item,
                            case cap of Some c \<Rightarrow> scoutfs_kvec_memcpy c (val item) | None \<Rightarrow> []),
                       cac)
             | None \<Rightarrow>
                 if \<not> cached then
                   (case scoutfs_manifest_read_items ext cac k range_end_key of
                      (Inl e, cac') \<Rightarrow> Some (Inl e, cac')
                    | (Inr u, cac') \<Rightarrow> next_loop ext cac' k last_key cap)
                 else if scoutfs_key_compare range_end_key last_key < 0 then
                   (case scoutfs_manifest_read_items ext cac range_end_key last_key of
                      (Inl e, cac') \<Rightarrow> Some (Inl e, cac')
                    | (Inr u, cac') \<Rightarrow> next_loop ext cac' k last_key cap)
                 else Some (Inl ENOENT, cac)))"

declare next_loop.simps [code]

definition scoutfs_item_next ::
  "bool \<Rightarrow> externals \<Rightarrow> item_cache \<Rightarrow> key_buf \<Rightarrow> key_buf \<Rightarrow> nat option \<Rightarrow>
   ((errno + key_buf \<times> byte list) \<times> item_cache) option" where
  "scoutfs_item_next mem ext cac k last_key cap =
     (if scoutfs_key_compare k last_key > 0 then Some (Inl ENOENT, cac)
      else if \<not> mem then Some (Inl ENOMEM, cac)
      else next_loop ext cac k last_key cap)"

definition scoutfs_item_has_dirty :: "item_cache \<Rightarrow> bool" where
  "scoutfs_item_has_dirty cac = (nr_dirty_items cac \<noteq> 0)"

section \<open>Writing the dirty items to a segment\<close>

text \<open>
  \<^verbatim>\<open>first_dirty\<close>: the descent from a node that follows the left summary bit, then the
  item's own bit, then the right summary bit.
\<close>

fun first_dirty :: "cached_item tree \<Rightarrow> cached_item option" where
  "first_dirty Leaf = None"
| "first_dirty (Node l item r) =
     (if dirty item AND LEFT_DIRTY \<noteq> 0 then first_dirty l
      else if dirty item AND ITEM_DIRTY \<noteq> 0 then Some item
      else if dirty item AND RIGHT_DIRTY \<noteq> 0 then first_dirty r
      else None)"

text \<open>
  \<^verbatim>\<open>next_dirty\<close> climbs through parent pointers. Seen from the root, the climb from the
  item that the locator names passes every node it left through the right child, and
  stops at a node it left through the left child: that node is returned if its own bit is
  set, else its right subtree is searched if its right summary bit is set, else the climb
  goes on from it. The result is \<open>None\<close> while the climb is still going on, and
  \<open>Some\<close> of what \<^verbatim>\<open>next_dirty\<close> returns once it has returned. A null item returns null.
\<close>

fun next_dirty_from :: "(cached_item \<Rightarrow> int) \<Rightarrow> cached_item tree \<Rightarrow> cached_item option option" where
  "next_dirty_from loc Leaf = Some None"
| "next_dirty_from loc (Node l item r) =
     (if loc item < 0 then
        (case next_dirty_from loc l of
           Some res \<Rightarrow> Some res
         | None \<Rightarrow>
             if dirty item AND ITEM_DIRTY \<noteq> 0 then Some (Some item)
             else if dirty item AND RIGHT_DIRTY \<noteq> 0 then Some (first_dirty r)
             else None)
      else if loc item > 0 then next_dirty_from loc r
      else if dirty item AND RIGHT_DIRTY \<noteq> 0 then Some (first_dirty r)
      else None)"

text \<open>A climb that runs out of parents returns null.\<close>

definition next_dirty :: "(cached_item \<Rightarrow> int) \<Rightarrow> cached_item tree \<Rightarrow> cached_item option" where
  "next_dirty loc t = (case next_dirty_from loc t of Some res \<Rightarrow> res | None \<Rightarrow> None)"

text \<open>
  \<^verbatim>\<open>count_seg_items\<close>: the three running sums and the two results are \<^verbatim>\<open>u32\<close>. The
  loop is the \<^verbatim>\<open>for\<close> loop from the item it is given.
\<close>

partial_function (option) count_seg_loop ::
  "externals \<Rightarrow> cached_item tree \<Rightarrow> cached_item option \<Rightarrow> 32 word \<Rightarrow> 32 word \<Rightarrow> 32 word \<Rightarrow>
   32 word \<Rightarrow> 32 word \<Rightarrow> (32 word \<times> 32 word) option" where
  "count_seg_loop ext t item items_n keys vals nr_items key_bytes =
     (case item of
        None \<Rightarrow> Some (nr_items, key_bytes)
      | Some i \<Rightarrow>
          (let items' = items_n + 1;
               keys' = keys + of_nat (key_len (key i));
               vals' = vals + of_nat (scoutfs_kvec_length (val i))
           in if \<not> seg_fits_single ext items' keys' vals' then Some (nr_items, key_bytes)
              else count_seg_loop ext t (next_dirty (item_at (key i)) t) items' keys' vals'
                     items' keys'))"

declare count_seg_loop.simps [code]

definition count_seg_items :: "externals \<Rightarrow> item_cache \<Rightarrow> (32 word \<times> 32 word) option" where
  "count_seg_items ext cac =
     count_seg_loop ext (rb_node (items cac)) (first_dirty (rb_node (items cac))) 0 0 0 0 0"

text \<open>
  The segment is written through \<^verbatim>\<open>scoutfs_seg_first_item\<close> and
  \<^verbatim>\<open>scoutfs_seg_append_item\<close>, which are not part of item.c: a segment is the list of the
  calls made on it.
\<close>

datatype seg_call =
  Seg_first_item key_buf kvec byte "32 word" "32 word"
| Seg_append_item key_buf kvec byte

text \<open>
  The loop of \<^verbatim>\<open>scoutfs_item_dirty_seg\<close>. The item pointer is null or the key of the
  item it points to, and is followed through the tree; following a null pointer, or one
  that names no item, has no result.
\<close>

function dirty_seg_loop ::
  "item_cache \<Rightarrow> seg_call list \<Rightarrow> key_buf option \<Rightarrow> 32 word \<Rightarrow> 32 word \<Rightarrow>
   (item_cache \<times> seg_call list) option" where
  "dirty_seg_loop cac seg item nr_items key_bytes =
     (if nr_items = 0 then Some (cac, seg)
      else
        (case (case item of
                 None \<Rightarrow> first_dirty (rb_node (items cac))
               | Some k \<Rightarrow> rb_find (item_at k) (rb_node (items cac))) of
           None \<Rightarrow> None
         | Some i \<Rightarrow>
             (let seg' = seg @ [case item of
                                  None \<Rightarrow> Seg_first_item (key i) (val i) (item_flags i) nr_items key_bytes
                                | Some k \<Rightarrow> Seg_append_item (key i) (val i) (item_flags i)];
                  cac1 = clear_item_dirty cac (key i);
                  nxt = next_dirty (item_at (key i)) (rb_node (items cac1));
                  cac2 = (if deletion i then erase_item cac1 (key i) else cac1)
              in dirty_seg_loop cac2 seg' (map_option key nxt) (nr_items - 1)
                   (key_bytes - of_nat (key_len (key i))))))"
  by pat_completeness auto
termination
  by (relation "measure (\<lambda>(cac, seg, item, nr_items, key_bytes). unat nr_items)")
     (simp_all add: unat_minus_one unat_gt_0)

declare dirty_seg_loop.simps [simp del]

text \<open>
  \<^verbatim>\<open>scoutfs_item_dirty_seg\<close>: the return value, the cache and the segment as the call
  leaves them.
\<close>

definition scoutfs_item_dirty_seg ::
  "externals \<Rightarrow> item_cache \<Rightarrow> seg_call list \<Rightarrow> (int \<times> item_cache \<times> seg_call list) option" where
  "scoutfs_item_dirty_seg ext cac seg =
     (case count_seg_items ext cac of
        None \<Rightarrow> None
      | Some (nr_items, key_bytes) \<Rightarrow>
          (case dirty_seg_loop cac seg None nr_items key_bytes of
             None \<Rightarrow> None
           | Some (cac', seg') \<Rightarrow> Some (0, cac', seg')))"

section \<open>Properties named by the specification\<close>

text \<open>
  The dirty items of a cache are the items of the tree whose own dirty bit is set, in key
  order. \<open>counters_ok\<close> is the invariant of the specification, in the specification's
  words: the three aggregate counters are the number of those items, the sum of their key
  lengths and the sum of their current value lengths, and none is negative.
\<close>

definition dirty_items :: "item_cache \<Rightarrow> cached_item list" where
  "dirty_items cac = filter (\<lambda>i. dirty i AND ITEM_DIRTY \<noteq> 0) (inorder (rb_node (items cac)))"

definition counters_ok :: "item_cache \<Rightarrow> bool" where
  "counters_ok cac \<longleftrightarrow>
     nr_dirty_items cac = int (length (dirty_items cac)) \<and>
     dirty_key_bytes cac = (\<Sum>i\<leftarrow>dirty_items cac. int (key_len (key i))) \<and>
     dirty_val_bytes cac = (\<Sum>i\<leftarrow>dirty_items cac. int (scoutfs_kvec_length (val i))) \<and>
     0 \<le> nr_dirty_items cac \<and> 0 \<le> dirty_key_bytes cac \<and> 0 \<le> dirty_val_bytes cac"

section \<open>Lookups through the tree\<close>

lemma walk_items_from_find: "fst (walk_items_from t k prev nxt) = rb_find (item_at k) t"
  by (induction t arbitrary: prev nxt) (auto simp: Let_def item_at_def)

lemma find_item_find:
  "find_item root k =
     (case rb_find (item_at k) (rb_node root) of
        None \<Rightarrow> None
      | Some item \<Rightarrow> if deletion item then None else Some item)"
  using walk_items_from_find[of "rb_node root" k None None]
  by (auto simp: find_item_def walk_items_def split: prod.splits option.splits)

lemma rb_find_item_key: "rb_find (item_at k) t = Some item \<Longrightarrow> key item = k"
  by (induction t) (auto simp: item_at_def key_compare_eq0 split: if_splits)

lemma find_item_key: "find_item root k = Some item \<Longrightarrow> key item = k"
  by (auto simp: find_item_find rb_find_item_key split: option.splits if_splits)

lemma rb_find_update_at:
  "(\<And>x. loc (f x) = loc x) \<Longrightarrow>
   rb_find loc (rb_update_at f loc t) = map_option f (rb_find loc t)"
  by (induction t) auto

lemma rb_find_update_at_other:
  "(\<And>x. loc (f x) = loc x) \<Longrightarrow> (\<And>x. g (f x) = g x) \<Longrightarrow>
   map_option g (rb_find loc (rb_update_at f loc' t)) = map_option g (rb_find loc t)"
  by (induction t) auto

lemma item_at_val_update [simp]: "item_at k (x\<lparr>val := v\<rparr>) = item_at k x"
  by (simp add: item_at_def)

lemma item_at_deletion_update [simp]: "item_at k (x\<lparr>deletion := d\<rparr>) = item_at k x"
  by (simp add: item_at_def)

lemma rb_find_propagate_from:
  assumes "\<And>l x r. loc (aug l x r) = loc x" and "\<And>l x r. f (aug l x r) = f x"
  shows "map_option f (rb_find loc (fst (rb_propagate_from aug loc' t))) = map_option f (rb_find loc t)"
proof (induction t)
  case Leaf
  then show ?case by simp
next
  case (Node l x r)
  show ?case
  proof (cases "loc' x < 0")
    case True
    obtain l' go where p: "rb_propagate_from aug loc' l = (l', go)"
      by (cases "rb_propagate_from aug loc' l") auto
    obtain t g where q: "rb_propagate_step aug go l' x r = (t, g)"
      by (cases "rb_propagate_step aug go l' x r") auto
    from q assms have "\<exists>x'. t = Node l' x' r \<and> loc x' = loc x \<and> f x' = f x"
      by (auto simp: rb_propagate_step_def Let_def split: if_splits)
    then obtain x' where "t = Node l' x' r" "loc x' = loc x" "f x' = f x"
      by auto
    with True p q Node(1) show ?thesis by simp
  next
    case nl: False
    show ?thesis
    proof (cases "loc' x > 0")
      case True
      obtain r' go where p: "rb_propagate_from aug loc' r = (r', go)"
        by (cases "rb_propagate_from aug loc' r") auto
      obtain t g where q: "rb_propagate_step aug go l x r' = (t, g)"
        by (cases "rb_propagate_step aug go l x r'") auto
      from q assms have "\<exists>x'. t = Node l x' r' \<and> loc x' = loc x \<and> f x' = f x"
        by (auto simp: rb_propagate_step_def Let_def split: if_splits)
      then obtain x' where "t = Node l x' r'" "loc x' = loc x" "f x' = f x"
        by auto
      with nl True p q Node(2) show ?thesis by simp
    next
      case False
      with nl show ?thesis by simp
    qed
  qed
qed

lemma deletion_cb [simp]: "deletion (scoutfs_item_rb_cb l x r) = deletion x"
  by (simp add: scoutfs_item_rb_cb_def)

lemma rb_find_mark_item_dirty:
  "map_option deletion (rb_find (item_at k') (rb_node (items (mark_item_dirty cac k)))) =
   map_option deletion (rb_find (item_at k') (rb_node (items cac)))"
proof -
  have "map_option deletion
          (rb_find (item_at k')
             (update_dirty_parents k
                (rb_update_at (\<lambda>i. i\<lparr>dirty := dirty i OR ITEM_DIRTY\<rparr>) (item_at k) (rb_node (items cac))))) =
        map_option deletion (rb_find (item_at k') (rb_node (items cac)))"
    unfolding update_dirty_parents_def
    by (subst rb_find_propagate_from) (simp_all add: rb_find_update_at_other)
  then show ?thesis
    by (simp add: mark_item_dirty_def split: option.splits)
qed

lemma find_item_become_deletion:
  "find_item (items (become_deletion_item cac k)) k = None"
proof -
  have "map_option deletion (rb_find (item_at k) (rb_node (items (become_deletion_item cac k)))) =
        map_option (\<lambda>i. True) (rb_find (item_at k) (rb_node (items cac)))"
    unfolding become_deletion_item_def
    by (simp add: rb_find_mark_item_dirty rb_find_update_at option.map_comp comp_def)
  then have "\<forall>x. rb_find (item_at k) (rb_node (items (become_deletion_item cac k))) = Some x \<longrightarrow> deletion x"
    by (cases "rb_find (item_at k) (rb_node (items cac))") auto
  then show ?thesis
    by (auto simp: find_item_find split: option.splits)
qed

lemma and1_cases: "(d::64 word) AND 1 = 0 \<or> d AND 1 = 1"
  by (simp add: and_one_eq) (metis even_iff_mod_2_eq_zero odd_iff_mod_2_eq_one)

lemma dirty_cases:
  assumes "(d::64 word) \<le> 7"
  shows "d = 0 \<or> d = 1 \<or> d = 2 \<or> d = 3 \<or> d = 4 \<or> d = 5 \<or> d = 6 \<or> d = 7"
proof -
  from assms have "unat d \<le> 7" by (simp add: word_le_nat_alt)
  then have "unat d = 0 \<or> unat d = 1 \<or> unat d = 2 \<or> unat d = 3 \<or> unat d = 4 \<or> unat d = 5 \<or> unat d = 6 \<or> unat d = 7"
    by arith
  then show ?thesis
    by (auto simp: word_unat_eq_iff)
qed

lemma compute_item_bit:
  "compute_item_dirty l x r AND ITEM_DIRTY = dirty x AND ITEM_DIRTY"
  using and1_cases[of "dirty x"]
  by (cases l; cases r) (auto simp: compute_item_dirty_def ITEM_DIRTY_def LEFT_DIRTY_def RIGHT_DIRTY_def)

lemma compute_left_bit:
  "compute_item_dirty l x r AND LEFT_DIRTY = node_dirty_bit l LEFT_DIRTY"
  using and1_cases[of "dirty x"]
  by (cases l; cases r) (auto simp: compute_item_dirty_def ITEM_DIRTY_def LEFT_DIRTY_def RIGHT_DIRTY_def)

lemma compute_right_bit:
  "compute_item_dirty l x r AND RIGHT_DIRTY = node_dirty_bit r RIGHT_DIRTY"
  using and1_cases[of "dirty x"]
  by (cases l; cases r) (auto simp: compute_item_dirty_def ITEM_DIRTY_def LEFT_DIRTY_def RIGHT_DIRTY_def)

lemma compute_le7: "compute_item_dirty l x r \<le> 7"
  using and1_cases[of "dirty x"]
  by (cases l; cases r) (auto simp: compute_item_dirty_def ITEM_DIRTY_def LEFT_DIRTY_def RIGHT_DIRTY_def)

lemma compute_zero:
  "compute_item_dirty l x r = 0 \<longleftrightarrow>
     dirty x AND ITEM_DIRTY = 0 \<and> node_dirty_bit l LEFT_DIRTY = 0 \<and> node_dirty_bit r RIGHT_DIRTY = 0"
  using and1_cases[of "dirty x"]
  by (cases l; cases r) (auto simp: compute_item_dirty_def ITEM_DIRTY_def LEFT_DIRTY_def RIGHT_DIRTY_def)

section \<open>The tree operations on the in-order sequence\<close>

text \<open>
  \<open>f\<close> is any view of the entries that the augmentation does not change.
\<close>

lemma inorder_rotate_left:
  "(\<And>l x r. f (aug l x r) = f x) \<Longrightarrow>
   map f (inorder (rb_rotate_left aug t)) = map f (inorder t)"
  by (auto simp: rb_rotate_left_def Let_def split: tree.splits)

lemma inorder_rotate_right:
  "(\<And>l x r. f (aug l x r) = f x) \<Longrightarrow>
   map f (inorder (rb_rotate_right aug t)) = map f (inorder t)"
  by (auto simp: rb_rotate_right_def Let_def split: tree.splits)

lemma inorder_rotate_at:
  "(\<And>l x r. f (aug l x r) = f x) \<Longrightarrow>
   map f (inorder (rb_rotate_at aug p d t)) = map f (inorder t)"
  by (induction aug p d t rule: rb_rotate_at.induct)
     (simp_all add: inorder_rotate_left inorder_rotate_right)

lemma inorder_rotations:
  "(\<And>l x r. f (aug l x r) = f x) \<Longrightarrow>
   map f (inorder (rb_rotations aug rs t)) = map f (inorder t)"
  by (induction aug rs t rule: rb_rotations.induct) (simp_all add: inorder_rotate_at)

lemma inorder_rebalance:
  "(\<And>l x r. f (aug l x r) = f x) \<Longrightarrow>
   map f (inorder (rb_node (rb_rebalance aug root))) = map f (inorder (rb_node root))"
  by (simp add: rb_rebalance_def inorder_rotations split: list.splits)

lemma inorder_propagate_step:
  "(\<And>l x r. f (aug l x r) = f x) \<Longrightarrow>
   map f (inorder (fst (rb_propagate_step aug go l x r))) =
   map f (inorder l) @ f x # map f (inorder r)"
  by (simp add: rb_propagate_step_def Let_def)

lemma inorder_propagate_from:
  "(\<And>l x r. f (aug l x r) = f x) \<Longrightarrow>
   map f (inorder (fst (rb_propagate_from aug loc t))) = map f (inorder t)"
proof (induction t)
  case Leaf
  then show ?case by simp
next
  case (Node l x r)
  have s: "\<And>go l' r'. map f (inorder (fst (rb_propagate_step aug go l' x r'))) =
      map f (inorder l') @ f x # map f (inorder r')"
    using Node.prems by (rule inorder_propagate_step)
  show ?case
    using Node.IH[OF Node.prems] s
    by (auto split: prod.splits)
qed

lemma inorder_unlink_leftmost:
  "(\<And>l x r. f (aug l x r) = f x) \<Longrightarrow>
   rb_unlink_leftmost aug l x r = (s, t, go) \<Longrightarrow>
   map f (inorder l) @ f x # map f (inorder r) = f s # map f (inorder t)"
proof (induction aug l x r arbitrary: s t go rule: rb_unlink_leftmost.induct)
  case (1 aug s sr)
  then show ?case by simp
next
  case (2 aug ll lx lr x r)
  obtain s' l' go' where u: "rb_unlink_leftmost aug ll lx lr = (s', l', go')"
    by (cases "rb_unlink_leftmost aug ll lx lr") auto
  have "map f (inorder (fst (rb_propagate_step aug go' l' x r))) =
      map f (inorder l') @ f x # map f (inorder r)"
    using 2(2) by (rule inorder_propagate_step)
  moreover from 2(3) u have "s = s'" "t = fst (rb_propagate_step aug go' l' x r)"
    by (auto split: prod.splits)
  moreover from 2(1)[OF 2(2) u]
  have "map f (inorder ll) @ f lx # map f (inorder lr) = f s' # map f (inorder l')" .
  ultimately show ?case by simp
qed


lemma inorder_unlink:
  assumes f: "\<And>l x r. f (aug l x r) = f x"
  shows "distinct (map f (inorder t)) \<Longrightarrow> rb_find loc t = Some y \<Longrightarrow>
   map f (inorder (fst (rb_unlink aug loc t))) = remove1 (f y) (map f (inorder t))"
proof (induction t)
  case Leaf
  then show ?case by simp
next
  case (Node l x r)
  have s: "\<And>go l' r' z. map f (inorder (fst (rb_propagate_step aug go l' z r'))) =
      map f (inorder l') @ f z # map f (inorder r')"
    using f by (rule inorder_propagate_step)
  show ?case
  proof (cases "loc x < 0")
    case True
    with Node.prems have fy: "rb_find loc l = Some y" by simp
    then have "y \<in> set (inorder l)" by (induction l) (auto split: if_splits)
    then have "f y \<in> set (map f (inorder l))" by simp
    moreover from Node.prems have "distinct (map f (inorder l))" by simp
    ultimately show ?thesis
      using True Node.IH(1)[OF _ fy] s
      by (auto split: prod.splits simp: remove1_append)
  next
    case nl: False
    show ?thesis
    proof (cases "loc x > 0")
      case True
      with nl Node.prems have fy: "rb_find loc r = Some y" by simp
      then have "y \<in> set (inorder r)" by (induction r) (auto split: if_splits)
      then have "f y \<in> set (map f (inorder r))" by simp
      with Node.prems have "f y \<notin> set (map f (inorder l))" "f y \<noteq> f x"
        by auto
      moreover from Node.prems have "distinct (map f (inorder r))" by simp
      ultimately show ?thesis
        using nl True Node.IH(2)[OF _ fy] s
        by (auto split: prod.splits simp: remove1_append)
    next
      case False
      with nl Node.prems have yx: "y = x" by simp
      from Node.prems have nx: "f x \<notin> set (map f (inorder l))" by auto
      show ?thesis
      proof (cases l)
        case Leaf
        with nl False yx show ?thesis by simp
      next
        case ln: (Node ll lx lr)
        show ?thesis
        proof (cases r)
          case Leaf
          with nl False yx ln nx show ?thesis by (simp add: remove1_append)
        next
          case rn: (Node rl sx sr)
          show ?thesis
          proof (cases rl)
            case Leaf
            with nl False yx ln rn nx s show ?thesis
              by (simp add: remove1_append f)
          next
            case cn: (Node cll clx clr)
            obtain s' r' go where u: "rb_unlink_leftmost aug (Node cll clx clr) sx sr = (s', r', go)"
              by (cases "rb_unlink_leftmost aug (Node cll clx clr) sx sr") auto
            from inorder_unlink_leftmost[OF f u]
            have "map f (inorder r) = f s' # map f (inorder r')"
              using rn cn by simp
            with nl False yx ln rn cn u nx s show ?thesis
              by (simp add: remove1_append f)
          qed
        qed
      qed
    qed
  qed
qed

section \<open>The item tree as a sorted sequence of entries\<close>

text \<open>
  The keys of the tree are strictly ascending in order. An entry is an item without its
  two summary bits: key, value, deletion flag and its own dirty bit.
\<close>

definition items_sorted :: "cached_item tree \<Rightarrow> bool" where
  "items_sorted t = sorted_wrt (<) (map key (inorder t))"

definition entry_of :: "cached_item \<Rightarrow> cached_item" where
  "entry_of i = i\<lparr>dirty := dirty i AND ITEM_DIRTY\<rparr>"

definition entries :: "item_cache \<Rightarrow> cached_item list" where
  "entries cac = map entry_of (inorder (rb_node (items cac)))"

lemma item_at_less: "item_at k x < 0 \<longleftrightarrow> k < key x"
  by (simp add: item_at_def key_compare_lt)

lemma item_at_greater: "item_at k x > 0 \<longleftrightarrow> key x < k"
  by (simp add: item_at_def key_compare_gt)

lemma item_at_zero: "item_at k x = 0 \<longleftrightarrow> key x = k"
  by (auto simp add: item_at_def key_compare_eq0)

lemma items_sorted_Node:
  "items_sorted (Node l x r) \<longleftrightarrow>
     items_sorted l \<and> items_sorted r \<and>
     (\<forall>y\<in>set_tree l. key y < key x) \<and> (\<forall>y\<in>set_tree r. key x < key y)"
  by (auto simp: items_sorted_def sorted_wrt_append) (meson less_trans)

lemma items_sorted_Leaf [simp]: "items_sorted Leaf"
  by (simp add: items_sorted_def)

lemma rb_find_sorted:
  "items_sorted t \<Longrightarrow>
   rb_find (item_at k) t = Some x \<longleftrightarrow> x \<in> set_tree t \<and> key x = k"
proof (induction t)
  case Leaf
  then show ?case by simp
next
  case (Node l y r)
  then show ?case
    by (auto simp: items_sorted_Node item_at_less item_at_greater item_at_zero)
qed

lemma rb_find_sorted_None:
  "items_sorted t \<Longrightarrow> rb_find (item_at k) t = None \<longleftrightarrow> k \<notin> key ` set_tree t"
proof (cases "rb_find (item_at k) t")
  case None
  assume s: "items_sorted t"
  have "\<And>x. x \<in> set_tree t \<Longrightarrow> key x \<noteq> k"
    using rb_find_sorted[OF s, of k] None by auto
  with None show ?thesis by auto
next
  case (Some a)
  assume s: "items_sorted t"
  from rb_find_sorted[OF s, of k a] Some have "a \<in> set_tree t" "key a = k" by auto
  with Some show ?thesis by auto
qed

lemma inorder_update_at_sorted:
  "items_sorted t \<Longrightarrow>
   inorder (rb_update_at g (item_at k) t) = map (\<lambda>x. if key x = k then g x else x) (inorder t)"
proof (induction t)
  case Leaf
  then show ?case by simp
next
  case (Node l y r)
  have "k < key y \<Longrightarrow> map (\<lambda>x. if key x = k then g x else x) (inorder r) = inorder r"
    using Node.prems by (intro map_idI) (auto simp: items_sorted_Node)
  moreover have "key y < k \<Longrightarrow> map (\<lambda>x. if key x = k then g x else x) (inorder l) = inorder l"
    using Node.prems by (intro map_idI) (auto simp: items_sorted_Node)
  moreover have "key y = k \<Longrightarrow> map (\<lambda>x. if key x = k then g x else x) (inorder l) = inorder l"
    using Node.prems by (intro map_idI) (auto simp: items_sorted_Node)
  moreover have "key y = k \<Longrightarrow> map (\<lambda>x. if key x = k then g x else x) (inorder r) = inorder r"
    using Node.prems by (intro map_idI) (auto simp: items_sorted_Node)
  ultimately show ?case
    using Node by (auto simp: items_sorted_Node item_at_less item_at_greater item_at_zero)
qed

lemma key_cb [simp]: "key (scoutfs_item_rb_cb l x r) = key x"
  by (simp add: scoutfs_item_rb_cb_def)

lemma val_cb [simp]: "val (scoutfs_item_rb_cb l x r) = val x"
  by (simp add: scoutfs_item_rb_cb_def)

lemma entry_of_cb [simp]: "entry_of (scoutfs_item_rb_cb l x r) = entry_of x"
  by (simp add: scoutfs_item_rb_cb_def entry_of_def compute_item_bit)

lemma key_entry_of [simp]: "key (entry_of x) = key x"
  by (simp add: entry_of_def)

lemma val_entry_of [simp]: "val (entry_of x) = val x"
  by (simp add: entry_of_def)

lemma deletion_entry_of [simp]: "deletion (entry_of x) = deletion x"
  by (simp add: entry_of_def)

lemma dirty_entry_of [simp]: "dirty (entry_of x) = dirty x AND ITEM_DIRTY"
  by (simp add: entry_of_def)

lemma items_sorted_entries:
  "items_sorted (rb_node (items cac)) \<longleftrightarrow> sorted_wrt (<) (map key (entries cac))"
  by (simp add: items_sorted_def entries_def comp_def)

lemma update_dirty_parents_keys [simp]:
  "map key (inorder (update_dirty_parents k t)) = map key (inorder t)"
  by (simp add: update_dirty_parents_def inorder_propagate_from)

lemma update_dirty_parents_entries [simp]:
  "map entry_of (inorder (update_dirty_parents k t)) = map entry_of (inorder t)"
  by (simp add: update_dirty_parents_def inorder_propagate_from)

lemma items_sorted_update_dirty_parents [simp]:
  "items_sorted (update_dirty_parents k t) = items_sorted t"
  by (simp add: items_sorted_def)

lemma items_sorted_update_at:
  "(\<And>x. key (g x) = key x) \<Longrightarrow> items_sorted t \<Longrightarrow> items_sorted (rb_update_at g (item_at k) t)"
  by (simp add: items_sorted_def inorder_update_at_sorted comp_def if_distrib cong: if_cong)

section \<open>What the item operations do to the entries\<close>

lemma and1_or1 [simp]: "((d::64 word) OR 1) AND 1 = 1"
  by (auto simp: bit_eq_iff bit_and_iff bit_or_iff bit_1_iff)

lemma and1_andnot1 [simp]: "((d::64 word) AND NOT 1) AND 1 = 0"
  by (simp add: and.assoc)

lemma and1_andm2 [simp]: "((d::64 word) AND - 2) AND 1 = 0"
  by (simp add: and.assoc)

lemma sorted_key_unique:
  assumes "items_sorted t" "x \<in> set_tree t" "y \<in> set_tree t" "key x = key y"
  shows "x = y"
proof -
  from assms have "rb_find (item_at (key x)) t = Some x" "rb_find (item_at (key x)) t = Some y"
    by (simp_all add: rb_find_sorted)
  then show ?thesis by simp
qed

lemma map_if_unique:
  "\<forall>x\<in>set xs. key x = k \<longrightarrow> h x = x \<Longrightarrow> map (\<lambda>x. if key x = k then h x else x) xs = xs"
  by (induction xs) auto

lemma entries_mark_item_dirty:
  assumes "items_sorted (rb_node (items cac))"
  shows "entries (mark_item_dirty cac k) =
         map (\<lambda>e. if key e = k then e\<lparr>dirty := ITEM_DIRTY\<rparr> else e) (entries cac)"
proof (cases "rb_find (item_at k) (rb_node (items cac))")
  case None
  with assms have "k \<notin> key ` set_tree (rb_node (items cac))"
    by (simp add: rb_find_sorted_None)
  then have "map (\<lambda>e. if key e = k then e\<lparr>dirty := ITEM_DIRTY\<rparr> else e) (entries cac) = entries cac"
    by (intro map_if_unique) (auto simp: entries_def)
  with None show ?thesis by (simp add: mark_item_dirty_def)
next
  case (Some item)
  with assms have "item \<in> set_tree (rb_node (items cac))" "key item = k"
    by (simp_all add: rb_find_sorted)
  with assms have u: "\<And>x. x \<in> set_tree (rb_node (items cac)) \<Longrightarrow> key x = k \<Longrightarrow> x = item"
    using sorted_key_unique by blast
  show ?thesis
  proof (cases "dirty item AND ITEM_DIRTY \<noteq> 0")
    case True
    then have "dirty item AND ITEM_DIRTY = ITEM_DIRTY"
      using and1_cases[of "dirty item"] by (auto simp: ITEM_DIRTY_def)
    then have "(entry_of item)\<lparr>dirty := ITEM_DIRTY\<rparr> = entry_of item"
      by (simp add: entry_of_def)
    then have "map (\<lambda>e. if key e = k then e\<lparr>dirty := ITEM_DIRTY\<rparr> else e) (entries cac) = entries cac"
      using u by (intro map_if_unique) (auto simp: entries_def)
    with Some True show ?thesis by (simp add: mark_item_dirty_def)
  next
    case False
    have "\<And>x. entry_of (x\<lparr>dirty := dirty x OR ITEM_DIRTY\<rparr>) = (entry_of x)\<lparr>dirty := ITEM_DIRTY\<rparr>"
      by (simp add: entry_of_def ITEM_DIRTY_def)
    with Some False assms show ?thesis
      by (simp add: mark_item_dirty_def entries_def inorder_update_at_sorted comp_def
            if_distrib[of entry_of] cong: if_cong)
  qed
qed

lemma entries_clear_item_dirty:
  assumes "items_sorted (rb_node (items cac))"
  shows "entries (clear_item_dirty cac k) =
         map (\<lambda>e. if key e = k then e\<lparr>dirty := 0\<rparr> else e) (entries cac)"
proof (cases "rb_find (item_at k) (rb_node (items cac))")
  case None
  with assms have "k \<notin> key ` set_tree (rb_node (items cac))"
    by (simp add: rb_find_sorted_None)
  then have "map (\<lambda>e. if key e = k then e\<lparr>dirty := 0\<rparr> else e) (entries cac) = entries cac"
    by (intro map_if_unique) (auto simp: entries_def)
  with None show ?thesis by (simp add: clear_item_dirty_def)
next
  case (Some item)
  with assms have "item \<in> set_tree (rb_node (items cac))" "key item = k"
    by (simp_all add: rb_find_sorted)
  with assms have u: "\<And>x. x \<in> set_tree (rb_node (items cac)) \<Longrightarrow> key x = k \<Longrightarrow> x = item"
    using sorted_key_unique by blast
  show ?thesis
  proof (cases "dirty item AND ITEM_DIRTY = 0")
    case True
    then have "(entry_of item)\<lparr>dirty := 0\<rparr> = entry_of item"
      by (simp add: entry_of_def)
    then have "map (\<lambda>e. if key e = k then e\<lparr>dirty := 0\<rparr> else e) (entries cac) = entries cac"
      using u by (intro map_if_unique) (auto simp: entries_def)
    with Some True show ?thesis by (simp add: clear_item_dirty_def)
  next
    case False
    have "\<And>x. entry_of (x\<lparr>dirty := dirty x AND NOT ITEM_DIRTY\<rparr>) = (entry_of x)\<lparr>dirty := 0\<rparr>"
      by (simp add: entry_of_def ITEM_DIRTY_def)
    with Some False assms show ?thesis
      by (simp add: clear_item_dirty_def entries_def inorder_update_at_sorted comp_def
            if_distrib[of entry_of] cong: if_cong)
  qed
qed

lemma keys_mark_item_dirty:
  "items_sorted (rb_node (items cac)) \<Longrightarrow>
   map key (entries (mark_item_dirty cac k)) = map key (entries cac)"
  by (simp add: entries_mark_item_dirty comp_def if_distrib[of key] cong: if_cong)

lemma keys_clear_item_dirty:
  "items_sorted (rb_node (items cac)) \<Longrightarrow>
   map key (entries (clear_item_dirty cac k)) = map key (entries cac)"
  by (simp add: entries_clear_item_dirty comp_def if_distrib[of key] cong: if_cong)

lemma sorted_mark_item_dirty:
  "items_sorted (rb_node (items cac)) \<Longrightarrow> items_sorted (rb_node (items (mark_item_dirty cac k)))"
  by (simp add: items_sorted_entries keys_mark_item_dirty)

lemma sorted_clear_item_dirty:
  "items_sorted (rb_node (items cac)) \<Longrightarrow> items_sorted (rb_node (items (clear_item_dirty cac k)))"
  by (simp add: items_sorted_entries keys_clear_item_dirty)

lemma ranges_mark_item_dirty [simp]: "ranges (mark_item_dirty cac k) = ranges cac"
  by (simp add: mark_item_dirty_def split: option.splits)

lemma ranges_clear_item_dirty [simp]: "ranges (clear_item_dirty cac k) = ranges cac"
  by (simp add: clear_item_dirty_def split: option.splits)

lemma sched_mark_item_dirty [simp]: "rb_sched (items (mark_item_dirty cac k)) = rb_sched (items cac)"
  by (simp add: mark_item_dirty_def split: option.splits)

lemma sched_clear_item_dirty [simp]: "rb_sched (items (clear_item_dirty cac k)) = rb_sched (items cac)"
  by (simp add: clear_item_dirty_def split: option.splits)

definition counters :: "item_cache \<Rightarrow> int \<times> int \<times> int" where
  "counters cac = (nr_dirty_items cac, dirty_key_bytes cac, dirty_val_bytes cac)"

lemma inorder_unlink_miss:
  assumes f: "\<And>l x r. f (aug l x r) = f x"
  shows "rb_find loc t = None \<Longrightarrow> map f (inorder (fst (rb_unlink aug loc t))) = map f (inorder t)"
proof (induction t)
  case Leaf
  then show ?case by simp
next
  case (Node l x r)
  have s: "\<And>go l' r' z. map f (inorder (fst (rb_propagate_step aug go l' z r'))) =
      map f (inorder l') @ f z # map f (inorder r')"
    using f by (rule inorder_propagate_step)
  from Node show ?case
    by (auto split: prod.splits if_splits simp: s)
qed

lemma distinct_entries: "distinct (map key xs) \<Longrightarrow> distinct (map entry_of xs)"
proof -
  assume "distinct (map key xs)"
  then have "distinct (map key (map entry_of xs))" by (simp add: comp_def)
  then show ?thesis by (auto simp: distinct_map dest: inj_on_imageI2)
qed

lemma filter_key_map_clear:
  "filter (\<lambda>e. key e \<noteq> k) (map (\<lambda>e. if key e = k then h e else e) es) =
   filter (\<lambda>e. key e \<noteq> k) es"
  if "\<And>e. key (h e) = key e" for h :: "cached_item \<Rightarrow> cached_item"
  using that by (induction es) auto

lemma remove1_filter_key:
  "distinct (map key es) \<Longrightarrow> e \<in> set es \<Longrightarrow> remove1 e es = filter (\<lambda>x. key x \<noteq> key e) es"
proof (induction es)
  case Nil
  then show ?case by simp
next
  case (Cons a es)
  show ?case
  proof (cases "a = e")
    case True
    with Cons.prems have "\<forall>x\<in>set es. key x \<noteq> key e" by (auto simp: image_iff)
    then have "filter (\<lambda>x. key x \<noteq> key e) es = es" by (simp add: filter_id_conv)
    with True show ?thesis by simp
  next
    case False
    with Cons.prems have "key a \<noteq> key e" by (auto simp: image_iff)
    with False Cons show ?thesis by simp
  qed
qed

lemma sorted_distinct_keys: "items_sorted t \<Longrightarrow> distinct (map key (inorder t))"
  by (simp add: items_sorted_def strict_sorted_iff)

lemma entries_erase_item:
  assumes s: "items_sorted (rb_node (items cac))"
  shows "entries (erase_item cac k) = filter (\<lambda>e. key e \<noteq> k) (entries cac)"
proof -
  let ?c = "clear_item_dirty cac k"
  let ?t = "rb_node (items ?c)"
  have s': "items_sorted ?t" using s by (rule sorted_clear_item_dirty)
  have e': "entries ?c = map (\<lambda>e. if key e = k then e\<lparr>dirty := 0\<rparr> else e) (entries cac)"
    using s by (rule entries_clear_item_dirty)
  have f: "filter (\<lambda>e. key e \<noteq> k) (entries ?c) = filter (\<lambda>e. key e \<noteq> k) (entries cac)"
    unfolding e' by (rule filter_key_map_clear) simp
  have r: "entries (erase_item cac k) = map entry_of (inorder (fst (rb_unlink scoutfs_item_rb_cb (item_at k) ?t)))"
    by (simp add: erase_item_def Let_def entries_def rb_erase_augmented_def inorder_rebalance)
  show ?thesis
  proof (cases "rb_find (item_at k) ?t")
    case None
    then have "k \<notin> key ` set_tree ?t" using s' by (simp add: rb_find_sorted_None)
    then have "filter (\<lambda>e. key e \<noteq> k) (entries ?c) = entries ?c"
      by (auto simp: filter_id_conv entries_def)
    with None r f show ?thesis
      by (simp add: inorder_unlink_miss entries_def)
  next
    case (Some y)
    then have y: "y \<in> set_tree ?t" "key y = k" using s' by (simp_all add: rb_find_sorted)
    have d: "distinct (map key (inorder ?t))" using s' by (rule sorted_distinct_keys)
    then have "distinct (map entry_of (inorder ?t))" by (rule distinct_entries)
    then have "map entry_of (inorder (fst (rb_unlink scoutfs_item_rb_cb (item_at k) ?t))) =
               remove1 (entry_of y) (map entry_of (inorder ?t))"
      using Some by (intro inorder_unlink) simp_all
    also have "\<dots> = filter (\<lambda>x. key x \<noteq> key (entry_of y)) (map entry_of (inorder ?t))"
      using d y by (intro remove1_filter_key) (auto simp: comp_def)
    finally show ?thesis using r f y by (simp add: entries_def)
  qed
qed

lemma sorted_filter_entries:
  "sorted_wrt (<) (map key es) \<Longrightarrow> sorted_wrt (<) (map key (filter P es))"
  by (induction es) auto

lemma sorted_erase_item:
  "items_sorted (rb_node (items cac)) \<Longrightarrow> items_sorted (rb_node (items (erase_item cac k)))"
  by (simp add: items_sorted_entries entries_erase_item sorted_filter_entries)

lemma ranges_erase_item [simp]: "ranges (erase_item cac k) = ranges cac"
  by (simp add: erase_item_def Let_def)

lemma counters_erase_item [simp]: "counters (erase_item cac k) = counters (clear_item_dirty cac k)"
  by (simp add: erase_item_def Let_def counters_def)

lemma insert_item_descend_find:
  "insert_item_descend ins t = (t', hit) \<Longrightarrow> hit = rb_find (item_at (key ins)) t"
  by (induction t arbitrary: t')
     (auto simp: Let_def item_at_def split: if_splits prod.splits)

lemma insert_item_descend_clean_hit:
  "dirty ins = 0 \<Longrightarrow> insert_item_descend ins t = (t', Some x) \<Longrightarrow> t' = t"
  by (induction t arbitrary: t') (auto simp: Let_def split: if_splits prod.splits)

lemma filter_none: "\<forall>x\<in>set xs. \<not> P x \<Longrightarrow> filter P xs = []"
  by (simp add: filter_empty_conv)

lemma filter_all: "\<forall>x\<in>set xs. P x \<Longrightarrow> filter P xs = xs"
  by (simp add: filter_id_conv)

lemma insert_item_descend_link:
  "items_sorted t \<Longrightarrow> dirty ins = 0 \<Longrightarrow> insert_item_descend ins t = (t', None) \<Longrightarrow>
   inorder t' = filter (\<lambda>x. key x < key ins) (inorder t) @ ins #
                filter (\<lambda>x. key ins < key x) (inorder t)"
proof (induction t arbitrary: t')
  case Leaf
  then show ?case by auto
next
  case (Node l y r)
  from Node.prems(1) have sl: "items_sorted l" and sr: "items_sorted r"
    and bl: "\<forall>x\<in>set_tree l. key x < key y" and br: "\<forall>x\<in>set_tree r. key y < key x"
    by (simp_all add: items_sorted_Node)
  show ?case
  proof (cases "scoutfs_key_compare (key ins) (key y) < 0")
    case True
    then have lt: "key ins < key y" by (simp add: key_compare_lt)
    from True Node.prems obtain l' where d: "insert_item_descend ins l = (l', None)"
      and t': "t' = Node l' y r"
      by (auto simp: Let_def split: prod.splits)
    have "filter (\<lambda>x. key x < key ins) (inorder r) = []"
      using br lt by (intro filter_none) auto
    moreover have "filter (\<lambda>x. key ins < key x) (inorder r) = inorder r"
      using br lt by (intro filter_all) auto
    ultimately show ?thesis
      using Node.IH(1)[OF sl Node.prems(2) d] t' lt by simp
  next
    case nl: False
    show ?thesis
    proof (cases "scoutfs_key_compare (key ins) (key y) > 0")
      case True
      then have gt: "key y < key ins" by (simp add: key_compare_gt)
      from nl True Node.prems obtain r' where d: "insert_item_descend ins r = (r', None)"
        and t': "t' = Node l y r'"
        by (auto simp: Let_def split: prod.splits)
      have "filter (\<lambda>x. key x < key ins) (inorder l) = inorder l"
        using bl gt by (intro filter_all) auto
      moreover have "filter (\<lambda>x. key ins < key x) (inorder l) = []"
        using bl gt by (intro filter_none) auto
      ultimately show ?thesis
        using Node.IH(2)[OF sr Node.prems(2) d] t' gt by simp
    next
      case False
      with nl Node.prems show ?thesis by (simp add: Let_def)
    qed
  qed
qed

lemma record_same_items [simp]: "cac\<lparr>items := (items cac)\<lparr>rb_node := rb_node (items cac)\<rparr>\<rparr> = cac"
  by simp

text \<open>Where the new key goes among sorted entries.\<close>

definition entries_put :: "cached_item \<Rightarrow> cached_item list \<Rightarrow> cached_item list" where
  "entries_put ins es =
     filter (\<lambda>e. key e < key ins) es @ entry_of ins # filter (\<lambda>e. key ins < key e) es"

lemma insert_item_absent:
  assumes s: "items_sorted (rb_node (items cac))" and c: "dirty ins = 0"
    and n: "rb_find (item_at (key ins)) (rb_node (items cac)) = None"
  shows "\<exists>cac'. insert_item cac ins = (Inr (), cac') \<and>
           entries cac' = entries_put ins (entries cac) \<and>
           counters cac' = counters cac \<and> ranges cac' = ranges cac"
proof -
  obtain t' hit where d: "insert_item_descend ins (rb_node (items cac)) = (t', hit)"
    by (cases "insert_item_descend ins (rb_node (items cac))") auto
  with n have h: "hit = None" using insert_item_descend_find by fastforce
  from insert_item_descend_link[OF s c d[unfolded h]]
  have i: "inorder t' = filter (\<lambda>x. key x < key ins) (inorder (rb_node (items cac))) @ ins #
                filter (\<lambda>x. key ins < key x) (inorder (rb_node (items cac)))" .
  let ?c = "cac\<lparr>items := rb_insert_augmented scoutfs_item_rb_cb ((items cac)\<lparr>rb_node := t'\<rparr>)\<rparr>"
  have "insert_item cac ins = (Inr (), ?c)"
    using d h by (simp add: insert_item.simps)
  moreover have "entries ?c = entries_put ins (entries cac)"
    by (simp add: entries_def entries_put_def rb_insert_augmented_def inorder_rebalance i
          filter_map comp_def)
  moreover have "counters ?c = counters cac" "ranges ?c = ranges cac"
    by (simp_all add: counters_def)
  ultimately show ?thesis by blast
qed

lemma entries_absent:
  "items_sorted (rb_node (items cac)) \<Longrightarrow>
   rb_find (item_at k) (rb_node (items cac)) = None \<longleftrightarrow> k \<notin> key ` set (entries cac)"
  by (simp add: rb_find_sorted_None entries_def image_image)

lemma entries_put_filter:
  "entries_put ins (filter (\<lambda>e. key e \<noteq> key ins) es) = entries_put ins es"
proof -
  have "filter (\<lambda>x. key x \<noteq> key ins \<and> key x < key ins) es = filter (\<lambda>e. key e < key ins) es"
    by (rule filter_cong) auto
  moreover have "filter (\<lambda>x. key x \<noteq> key ins \<and> key ins < key x) es = filter (\<lambda>e. key ins < key e) es"
    by (rule filter_cong) auto
  ultimately show ?thesis by (simp add: entries_put_def)
qed

text \<open>
  \<^verbatim>\<open>insert_item\<close> on a sorted tree, for an item fresh from \<^verbatim>\<open>alloc_item\<close>.
\<close>

lemma insert_item_sorted:
  assumes s: "items_sorted (rb_node (items cac))" and c: "dirty ins = 0"
  shows "case rb_find (item_at (key ins)) (rb_node (items cac)) of
           Some x \<Rightarrow>
             if \<not> deletion x then insert_item cac ins = (Inl EEXIST, cac)
             else (\<exists>cac'. insert_item cac ins = (Inr (), cac') \<and>
                    entries cac' = entries_put ins (entries cac) \<and>
                    counters cac' = counters (clear_item_dirty cac (key ins)) \<and>
                    ranges cac' = ranges cac)
         | None \<Rightarrow>
             (\<exists>cac'. insert_item cac ins = (Inr (), cac') \<and>
                    entries cac' = entries_put ins (entries cac) \<and>
                    counters cac' = counters cac \<and> ranges cac' = ranges cac)"
proof (cases "rb_find (item_at (key ins)) (rb_node (items cac))")
  case None
  with insert_item_absent[OF s c None] show ?thesis by simp
next
  case (Some x)
  obtain t' hit where d: "insert_item_descend ins (rb_node (items cac)) = (t', hit)"
    by (cases "insert_item_descend ins (rb_node (items cac))") auto
  with Some have h: "hit = Some x" using insert_item_descend_find by fastforce
  with d c have t': "t' = rb_node (items cac)" using insert_item_descend_clean_hit by blast
  from Some s have kx: "key x = key ins" by (simp add: rb_find_sorted)
  show ?thesis
  proof (cases "deletion x")
    case False
    with d h t' Some show ?thesis by (simp add: insert_item.simps)
  next
    case True
    let ?e = "erase_item cac (key ins)"
    have r: "insert_item cac ins = insert_item ?e ins"
      using d h t' True kx by (subst insert_item.simps) simp
    have se: "items_sorted (rb_node (items ?e))" using s by (rule sorted_erase_item)
    have ee: "entries ?e = filter (\<lambda>e. key e \<noteq> key ins) (entries cac)"
      using s by (rule entries_erase_item)
    then have "key ins \<notin> key ` set (entries ?e)" by auto
    then have ne: "rb_find (item_at (key ins)) (rb_node (items ?e)) = None"
      using se by (simp add: entries_absent)
    from insert_item_absent[OF se c ne] r ee True Some show ?thesis
      by (auto simp: entries_put_filter)
  qed
qed







lemma entry_found:
  assumes "items_sorted t" "e \<in> set (map entry_of (inorder t))"
  shows "\<exists>x. rb_find (item_at (key e)) t = Some x \<and> entry_of x = e"
proof -
  from assms(2) obtain x where x: "x \<in> set_tree t" "entry_of x = e" by auto
  then have "key e = key x" by auto
  moreover from assms(1) x(1) have "rb_find (item_at (key x)) t = Some x"
    by (simp add: rb_find_sorted)
  ultimately show ?thesis using x(2) by simp
qed


lemma sorted_wrt_around:
  assumes "sorted_wrt (<) (A::key_buf list)" and "sorted_wrt (<) B"
    and "\<forall>x\<in>set A. x < k" and "\<forall>y\<in>set B. k < y"
  shows "sorted_wrt (<) (A @ k # B)"
proof -
  have "\<forall>x\<in>set A. \<forall>y\<in>set B. x < y"
  proof (intro ballI)
    fix x y
    assume "x \<in> set A" "y \<in> set B"
    with assms(3,4) have "x < k" "k < y" by blast+
    then show "x < y" by (rule less_trans)
  qed
  then show ?thesis
    unfolding sorted_wrt_append using assms by simp
qed

lemma sorted_entries_put:
  assumes "sorted_wrt (<) (map key es)"
  shows "sorted_wrt (<) (map key (entries_put ins es))"
proof -
  have "sorted_wrt (<) (map key (filter (\<lambda>e. key e < key ins) es) @ key ins #
          map key (filter (\<lambda>e. key ins < key e) es))"
  proof (rule sorted_wrt_around)
    show "sorted_wrt (<) (map key (filter (\<lambda>e. key e < key ins) es))"
      using assms by (rule sorted_filter_entries)
    show "sorted_wrt (<) (map key (filter (\<lambda>e. key ins < key e) es))"
      using assms by (rule sorted_filter_entries)
    show "\<forall>x\<in>set (map key (filter (\<lambda>e. key e < key ins) es)). x < key ins" by simp
    show "\<forall>y\<in>set (map key (filter (\<lambda>e. key ins < key e) es)). key ins < y" by simp
  qed
  then show ?thesis by (simp add: entries_put_def)
qed

lemma insert_item_sorted_result:
  assumes s: "items_sorted (rb_node (items cac))" and c: "dirty ins = 0"
    and r: "insert_item cac ins = (Inr u, cac')"
  shows "entries cac' = entries_put ins (entries cac) \<and> items_sorted (rb_node (items cac')) \<and>
         ranges cac' = ranges cac \<and>
         (\<forall>x. rb_find (item_at (key ins)) (rb_node (items cac)) = Some x \<longrightarrow> deletion x)"
proof -
  have e: "entries cac' = entries_put ins (entries cac) \<and> ranges cac' = ranges cac \<and>
         (\<forall>x. rb_find (item_at (key ins)) (rb_node (items cac)) = Some x \<longrightarrow> deletion x)"
  proof (cases "rb_find (item_at (key ins)) (rb_node (items cac))")
    case None
    with insert_item_sorted[OF s c] r show ?thesis by auto
  next
    case (Some x)
    show ?thesis
    proof (cases "deletion x")
      case True
      with Some insert_item_sorted[OF s c] r show ?thesis by auto
    next
      case False
      with Some insert_item_sorted[OF s c] r show ?thesis by simp
    qed
  qed
  moreover have "items_sorted (rb_node (items cac'))"
    using s e by (simp add: items_sorted_entries sorted_entries_put)
  ultimately show ?thesis by simp
qed

lemma entries_update_at:
  assumes g: "\<And>x. entry_of (g x) = h (entry_of x)"
    and s: "items_sorted (rb_node (items cac))"
  shows "entries (cac\<lparr>items := (items cac)\<lparr>rb_node := rb_update_at g (item_at k) (rb_node (items cac))\<rparr>\<rparr>) =
         map (\<lambda>e. if key e = k then h e else e) (entries cac)"
proof -
  have m: "map entry_of (map (\<lambda>x. if key x = k then g x else x) xs) =
        map (\<lambda>e. if key e = k then h e else e) (map entry_of xs)" for xs
    by (induction xs) (simp_all add: g)
  have "entries (cac\<lparr>items := (items cac)\<lparr>rb_node := rb_update_at g (item_at k) (rb_node (items cac))\<rparr>\<rparr>) =
        map entry_of (inorder (rb_update_at g (item_at k) (rb_node (items cac))))"
    by (simp add: entries_def)
  also have "\<dots> = map entry_of (map (\<lambda>x. if key x = k then g x else x) (inorder (rb_node (items cac))))"
    using s by (simp only: inorder_update_at_sorted)
  also have "\<dots> = map (\<lambda>e. if key e = k then h e else e) (map entry_of (inorder (rb_node (items cac))))"
    by (rule m)
  finally show ?thesis by (simp only: entries_def)
qed

lemma become_deletion_maps:
  "map (\<lambda>e. if key e = k then e\<lparr>dirty := ITEM_DIRTY\<rparr> else e)
     (map (\<lambda>e. if key e = k then e\<lparr>val := None, deletion := True\<rparr> else e) es) =
   map (\<lambda>e. if key e = k then e\<lparr>dirty := ITEM_DIRTY, val := None, deletion := True\<rparr> else e) es"
  by (induction es) simp_all

lemma entries_become_deletion_item:
  assumes s: "items_sorted (rb_node (items cac))"
  shows "entries (become_deletion_item cac k) =
         map (\<lambda>e. if key e = k then e\<lparr>dirty := ITEM_DIRTY, val := None, deletion := True\<rparr> else e)
           (entries cac)"
proof -
  let ?g = "\<lambda>i::cached_item. i\<lparr>val := None, deletion := True\<rparr>"
  let ?c = "cac\<lparr>items := (items cac)\<lparr>rb_node := rb_update_at ?g (item_at k) (rb_node (items cac))\<rparr>\<rparr>"
  have s': "items_sorted (rb_node (items ?c))"
    using s by (simp add: items_sorted_update_at)
  have e: "entries ?c = map (\<lambda>e. if key e = k then ?g e else e) (entries cac)"
    using s by (intro entries_update_at) (simp_all add: entry_of_def)
  have "entries (become_deletion_item cac k) = entries (mark_item_dirty ?c k)"
    by (simp add: become_deletion_item_def)
  also have "\<dots> = map (\<lambda>e. if key e = k then e\<lparr>dirty := ITEM_DIRTY\<rparr> else e) (entries ?c)"
    using s' by (rule entries_mark_item_dirty)
  finally show ?thesis
    unfolding e become_deletion_maps .
qed

lemma keys_become_deletion_item:
  "items_sorted (rb_node (items cac)) \<Longrightarrow>
   map key (entries (become_deletion_item cac k)) = map key (entries cac)"
proof -
  have "map key (map (\<lambda>e. if key e = k then e\<lparr>dirty := ITEM_DIRTY, val := None, deletion := True\<rparr> else e) es) = map key es"
    for es :: "cached_item list"
    by (induction es) simp_all
  then show "items_sorted (rb_node (items cac)) \<Longrightarrow> ?thesis"
    by (simp add: entries_become_deletion_item)
qed

lemma sorted_become_deletion_item:
  "items_sorted (rb_node (items cac)) \<Longrightarrow> items_sorted (rb_node (items (become_deletion_item cac k)))"
  by (simp add: items_sorted_entries keys_become_deletion_item)

lemma ranges_become_deletion_item [simp]: "ranges (become_deletion_item cac k) = ranges cac"
  by (simp add: become_deletion_item_def)

section \<open>The subtree-dirty summary bits\<close>

text \<open>
  \<open>summary_ok\<close> is the invariant in the words of the specification: at every node the
  left summary bit is set exactly when some node of the left subtree has one of its three
  dirty bits set, and the right summary bit likewise. \<open>dirty_consistent\<close> is the form in
  which the code maintains it: the dirty word of every node is what
  \<^verbatim>\<open>compute_item_dirty\<close> computes from its own dirty bit and its two children.
\<close>

fun summary_ok :: "cached_item tree \<Rightarrow> bool" where
  "summary_ok Leaf = True"
| "summary_ok (Node l x r) =
     ((dirty x AND LEFT_DIRTY \<noteq> 0 \<longleftrightarrow>
         (\<exists>d\<in>set_tree l. dirty d AND (ITEM_DIRTY OR LEFT_DIRTY OR RIGHT_DIRTY) \<noteq> 0)) \<and>
      (dirty x AND RIGHT_DIRTY \<noteq> 0 \<longleftrightarrow>
         (\<exists>d\<in>set_tree r. dirty d AND (ITEM_DIRTY OR LEFT_DIRTY OR RIGHT_DIRTY) \<noteq> 0)) \<and>
      summary_ok l \<and> summary_ok r)"

fun dirty_consistent :: "cached_item tree \<Rightarrow> bool" where
  "dirty_consistent Leaf = True"
| "dirty_consistent (Node l x r) =
     (dirty x = compute_item_dirty l x r \<and> dirty_consistent l \<and> dirty_consistent r)"

fun tree_dirty :: "cached_item tree \<Rightarrow> bool" where
  "tree_dirty Leaf = False"
| "tree_dirty (Node l x r) = (dirty x \<noteq> 0)"

definition has_dirty_item :: "cached_item tree \<Rightarrow> bool" where
  "has_dirty_item t = (\<exists>x\<in>set_tree t. dirty x AND ITEM_DIRTY \<noteq> 0)"

lemma has_dirty_item_entries:
  "has_dirty_item t \<longleftrightarrow> (\<exists>e\<in>set (map entry_of (inorder t)). dirty e \<noteq> 0)"
  by (simp add: has_dirty_item_def)

lemma node_dirty_bit_tree_dirty: "node_dirty_bit t d = (if tree_dirty t then d else 0)"
  by (cases t) simp_all

lemma compute_cong:
  "tree_dirty l' = tree_dirty l \<Longrightarrow> tree_dirty r' = tree_dirty r \<Longrightarrow>
   dirty x' AND ITEM_DIRTY = dirty x AND ITEM_DIRTY \<Longrightarrow>
   compute_item_dirty l' x' r' = compute_item_dirty l x r"
  by (simp add: compute_item_dirty_def node_dirty_bit_tree_dirty)

lemma compute_nonzero:
  "compute_item_dirty l x r \<noteq> 0 \<longleftrightarrow>
     dirty x AND ITEM_DIRTY \<noteq> 0 \<or> tree_dirty l \<or> tree_dirty r"
  by (simp add: compute_zero node_dirty_bit_tree_dirty LEFT_DIRTY_def RIGHT_DIRTY_def)

lemma has_dirty_item_Node:
  "has_dirty_item (Node l x r) \<longleftrightarrow>
     has_dirty_item l \<or> dirty x AND ITEM_DIRTY \<noteq> 0 \<or> has_dirty_item r"
  unfolding has_dirty_item_def by (simp only: tree.set bex_Un) blast

lemma has_dirty_item_Leaf [simp]: "\<not> has_dirty_item Leaf"
  by (simp add: has_dirty_item_def)

lemma tree_dirty_has_dirty_item:
  "dirty_consistent t \<Longrightarrow> tree_dirty t \<longleftrightarrow> has_dirty_item t"
proof (induction t)
  case Leaf
  then show ?case by simp
next
  case (Node l x r)
  then have lr: "tree_dirty l = has_dirty_item l" "tree_dirty r = has_dirty_item r"
    and d: "dirty x = compute_item_dirty l x r"
    by simp_all
  from d have "tree_dirty (Node l x r) \<longleftrightarrow> compute_item_dirty l x r \<noteq> 0"
    by (simp only: tree_dirty.simps)
  also have "\<dots> \<longleftrightarrow> dirty x AND ITEM_DIRTY \<noteq> 0 \<or> has_dirty_item l \<or> has_dirty_item r"
    unfolding compute_nonzero lr ..
  also have "\<dots> \<longleftrightarrow> has_dirty_item (Node l x r)"
    unfolding has_dirty_item_Node by blast
  finally show ?case .
qed

lemma cb_consistent:
  "dirty (scoutfs_item_rb_cb l x r) = compute_item_dirty l (scoutfs_item_rb_cb l x r) r"
proof -
  have "compute_item_dirty l (scoutfs_item_rb_cb l x r) r = compute_item_dirty l x r"
    by (rule compute_cong) (simp_all add: scoutfs_item_rb_cb_def compute_item_bit)
  then show ?thesis by (simp add: scoutfs_item_rb_cb_def)
qed

lemma cb_fixed: "dirty x = compute_item_dirty l x r \<Longrightarrow> scoutfs_item_rb_cb l x r = x"
  by (simp add: scoutfs_item_rb_cb_def)

lemma dirty_consistent_step:
  assumes "dirty_consistent l'" "dirty_consistent r'"
    and "\<not> go \<Longrightarrow> dirty x = compute_item_dirty l' x r'"
    and "rb_propagate_step scoutfs_item_rb_cb go l' x r' = (t, go')"
  shows "dirty_consistent t \<and> (\<not> go' \<longrightarrow> (\<exists>x'. t = Node l' x' r' \<and> dirty x' = dirty x))"
proof (cases go)
  case True
  with assms(4) have t: "t = Node l' (scoutfs_item_rb_cb l' x r') r'"
    and g: "go' = (scoutfs_item_rb_cb l' x r' \<noteq> x)"
    by (auto simp: rb_propagate_step_def Let_def)
  from t assms(1,2) have "dirty_consistent t" by (simp add: cb_consistent)
  with t g show ?thesis by auto
next
  case False
  with assms(4) have "t = Node l' x r'" by (simp add: rb_propagate_step_def)
  with assms(1,2,3) False show ?thesis by simp
qed

lemma has_dirty_item_cong:
  "map entry_of (inorder t') = map entry_of (inorder t) \<Longrightarrow> has_dirty_item t' = has_dirty_item t"
  by (simp only: has_dirty_item_entries)

lemma tree_dirty_cong:
  assumes "dirty_consistent t'" "dirty_consistent t"
    and "map entry_of (inorder t') = map entry_of (inorder t)"
  shows "tree_dirty t' = tree_dirty t"
proof -
  from assms(1) have "tree_dirty t' = has_dirty_item t'" by (rule tree_dirty_has_dirty_item)
  also from assms(3) have "\<dots> = has_dirty_item t" by (rule has_dirty_item_cong)
  also from assms(2) have "\<dots> = tree_dirty t" by (rule tree_dirty_has_dirty_item[symmetric])
  finally show ?thesis .
qed

lemma consistent_same_children:
  "tree_dirty l' = tree_dirty l \<Longrightarrow> tree_dirty r' = tree_dirty r \<Longrightarrow>
   dirty x = compute_item_dirty l x r \<Longrightarrow> dirty x = compute_item_dirty l' x r'"
  using compute_cong[of l' l r' r x x] by simp

lemma dirty_consistent_rotate_left:
  "dirty_consistent t \<Longrightarrow> dirty_consistent (rb_rotate_left scoutfs_item_rb_cb t)"
  by (auto simp: rb_rotate_left_def Let_def cb_consistent split: tree.splits)

lemma dirty_consistent_rotate_right:
  "dirty_consistent t \<Longrightarrow> dirty_consistent (rb_rotate_right scoutfs_item_rb_cb t)"
  by (auto simp: rb_rotate_right_def Let_def cb_consistent split: tree.splits)

lemma entries_rotate_at:
  "map entry_of (inorder (rb_rotate_at scoutfs_item_rb_cb p d t)) = map entry_of (inorder t)"
  by (rule inorder_rotate_at) simp

lemma dirty_consistent_rotate_at:
  "dirty_consistent t \<Longrightarrow> dirty_consistent (rb_rotate_at scoutfs_item_rb_cb p d t)"
proof (induction scoutfs_item_rb_cb p d t rule: rb_rotate_at.induct)
  case (1 d t)
  then show ?case
    by (simp add: dirty_consistent_rotate_left dirty_consistent_rotate_right)
next
  case (2 p ps d)
  then show ?case by simp
next
  case (3 ps d l x r)
  then have c: "dirty_consistent (rb_rotate_at scoutfs_item_rb_cb ps d l)" by simp
  from 3(2) have cl: "dirty_consistent l" and cr: "dirty_consistent r"
    and dx: "dirty x = compute_item_dirty l x r" by simp_all
  from c cl have td: "tree_dirty (rb_rotate_at scoutfs_item_rb_cb ps d l) = tree_dirty l"
    by (intro tree_dirty_cong entries_rotate_at)
  from consistent_same_children[OF td refl dx] c cr show ?case
    by simp
next
  case (4 ps d l x r)
  then have c: "dirty_consistent (rb_rotate_at scoutfs_item_rb_cb ps d r)" by simp
  from 4(2) have cl: "dirty_consistent l" and cr: "dirty_consistent r"
    and dx: "dirty x = compute_item_dirty l x r" by simp_all
  from c cr have td: "tree_dirty (rb_rotate_at scoutfs_item_rb_cb ps d r) = tree_dirty r"
    by (intro tree_dirty_cong entries_rotate_at)
  from consistent_same_children[OF refl td dx] c cl show ?case
    by simp
qed

lemma dirty_consistent_rotations:
  "dirty_consistent t \<Longrightarrow> dirty_consistent (rb_rotations scoutfs_item_rb_cb rs t)"
  by (induction scoutfs_item_rb_cb rs t rule: rb_rotations.induct)
     (simp_all add: dirty_consistent_rotate_at)

lemma dirty_consistent_rebalance:
  "dirty_consistent (rb_node root) \<Longrightarrow>
   dirty_consistent (rb_node (rb_rebalance scoutfs_item_rb_cb root))"
  by (simp add: rb_rebalance_def dirty_consistent_rotations split: list.splits)

lemma tree_dirty_step:
  assumes "rb_propagate_step scoutfs_item_rb_cb go l' x r' = (t, go')" "\<not> go'"
  shows "tree_dirty t = (dirty x \<noteq> 0)"
  using assms by (auto simp: rb_propagate_step_def Let_def split: if_splits)

lemma dirty_consistent_update_propagate:
  assumes g: "\<And>l x r. dirty x = compute_item_dirty l x r \<Longrightarrow> dirty (g x) = compute_item_dirty l (g x) r"
    and loc: "\<And>x. loc (g x) = loc x"
  shows "dirty_consistent t \<Longrightarrow>
         rb_propagate_from scoutfs_item_rb_cb loc (rb_update_at g loc t) = (t2, go) \<Longrightarrow>
         dirty_consistent t2 \<and> (\<not> go \<longrightarrow> tree_dirty t2 = tree_dirty t)"
proof (induction t arbitrary: t2 go)
  case Leaf
  then show ?case by auto
next
  case (Node l x r)
  from Node.prems(1) have cl: "dirty_consistent l" and cr: "dirty_consistent r"
    and dx: "dirty x = compute_item_dirty l x r" by simp_all
  show ?case
  proof (cases "loc x < 0")
    case True
    obtain l2 go1 where p: "rb_propagate_from scoutfs_item_rb_cb loc (rb_update_at g loc l) = (l2, go1)"
      by (cases "rb_propagate_from scoutfs_item_rb_cb loc (rb_update_at g loc l)") auto
    from Node.IH(1)[OF cl p] have c2: "dirty_consistent l2"
      and td: "\<not> go1 \<Longrightarrow> tree_dirty l2 = tree_dirty l" by simp_all
    from True p Node.prems(2) have s: "rb_propagate_step scoutfs_item_rb_cb go1 l2 x r = (t2, go)"
      by simp
    have "\<not> go1 \<Longrightarrow> dirty x = compute_item_dirty l2 x r"
      using consistent_same_children[OF td refl dx] by simp
    from dirty_consistent_step[OF c2 cr this s] tree_dirty_step[OF s]
    show ?thesis by auto
  next
    case nl: False
    show ?thesis
    proof (cases "loc x > 0")
      case True
      obtain r2 go1 where p: "rb_propagate_from scoutfs_item_rb_cb loc (rb_update_at g loc r) = (r2, go1)"
        by (cases "rb_propagate_from scoutfs_item_rb_cb loc (rb_update_at g loc r)") auto
      from Node.IH(2)[OF cr p] have c2: "dirty_consistent r2"
        and td: "\<not> go1 \<Longrightarrow> tree_dirty r2 = tree_dirty r" by simp_all
      from nl True p Node.prems(2) have s: "rb_propagate_step scoutfs_item_rb_cb go1 l x r2 = (t2, go)"
        by simp
      have "\<not> go1 \<Longrightarrow> dirty x = compute_item_dirty l x r2"
        using consistent_same_children[OF refl td dx] by simp
      from dirty_consistent_step[OF cl c2 this s] tree_dirty_step[OF s]
      show ?thesis by auto
    next
      case False
      with nl Node.prems(2) loc have "t2 = Node l (g x) r" "go" by auto
      with g[OF dx] cl cr show ?thesis by simp
    qed
  qed
qed

lemma dirty_consistent_update_at:
  assumes g: "\<And>x. dirty (g x) = dirty x"
  shows "dirty_consistent t \<Longrightarrow>
         dirty_consistent (rb_update_at g loc t) \<and> tree_dirty (rb_update_at g loc t) = tree_dirty t"
proof (induction t)
  case Leaf
  then show ?case by simp
next
  case (Node l x r)
  from Node.prems have cl: "dirty_consistent l" and cr: "dirty_consistent r"
    and dx: "dirty x = compute_item_dirty l x r" by simp_all
  from Node.IH(1)[OF cl] have l: "dirty_consistent (rb_update_at g loc l)"
    "tree_dirty (rb_update_at g loc l) = tree_dirty l" by simp_all
  from Node.IH(2)[OF cr] have r: "dirty_consistent (rb_update_at g loc r)"
    "tree_dirty (rb_update_at g loc r) = tree_dirty r" by simp_all
  have "compute_item_dirty l (g x) r = compute_item_dirty l x r"
    by (rule compute_cong) (simp_all add: g)
  with dx have gx: "dirty (g x) = compute_item_dirty l (g x) r" by (simp add: g)
  from consistent_same_children[OF l(2) refl dx] consistent_same_children[OF refl r(2) dx]
    gx l r cl cr g
  show ?case by simp
qed

lemma mark_keeps_consistent:
  assumes "dirty x = compute_item_dirty l x r"
  shows "dirty (x\<lparr>dirty := dirty x OR ITEM_DIRTY\<rparr>) =
         compute_item_dirty l (x\<lparr>dirty := dirty x OR ITEM_DIRTY\<rparr>) r"
proof -
  have "compute_item_dirty l x r OR ITEM_DIRTY =
        compute_item_dirty l (x\<lparr>dirty := compute_item_dirty l x r OR ITEM_DIRTY\<rparr>) r"
    using and1_cases[of "dirty x"]
    by (auto simp: compute_item_dirty_def node_dirty_bit_tree_dirty ITEM_DIRTY_def
        LEFT_DIRTY_def RIGHT_DIRTY_def)
  with assms show ?thesis by simp
qed

lemma clear_keeps_consistent:
  assumes "dirty x = compute_item_dirty l x r"
  shows "dirty (x\<lparr>dirty := dirty x AND NOT ITEM_DIRTY\<rparr>) =
         compute_item_dirty l (x\<lparr>dirty := dirty x AND NOT ITEM_DIRTY\<rparr>) r"
proof -
  have "compute_item_dirty l x r AND NOT ITEM_DIRTY =
        compute_item_dirty l (x\<lparr>dirty := compute_item_dirty l x r AND NOT ITEM_DIRTY\<rparr>) r"
    using and1_cases[of "dirty x"]
    by (auto simp: compute_item_dirty_def node_dirty_bit_tree_dirty ITEM_DIRTY_def
        LEFT_DIRTY_def RIGHT_DIRTY_def)
  with assms show ?thesis by simp
qed

lemma dirty_consistent_mark_item_dirty:
  assumes "dirty_consistent (rb_node (items cac))"
  shows "dirty_consistent (rb_node (items (mark_item_dirty cac k)))"
proof -
  let ?g = "\<lambda>i::cached_item. i\<lparr>dirty := dirty i OR ITEM_DIRTY\<rparr>"
  obtain t2 go where p: "rb_propagate_from scoutfs_item_rb_cb (item_at k)
      (rb_update_at ?g (item_at k) (rb_node (items cac))) = (t2, go)"
    by (cases "rb_propagate_from scoutfs_item_rb_cb (item_at k)
      (rb_update_at ?g (item_at k) (rb_node (items cac)))") auto
  have "dirty_consistent t2 \<and> (\<not> go \<longrightarrow> tree_dirty t2 = tree_dirty (rb_node (items cac)))"
  proof (rule dirty_consistent_update_propagate[where g = ?g and loc = "item_at k"])
    show "\<And>l x r. dirty x = compute_item_dirty l x r \<Longrightarrow>
        dirty (?g x) = compute_item_dirty l (?g x) r"
      by (rule mark_keeps_consistent)
    show "\<And>x. item_at k (?g x) = item_at k x" by simp
    show "dirty_consistent (rb_node (items cac))" by fact
    show "rb_propagate_from scoutfs_item_rb_cb (item_at k)
      (rb_update_at ?g (item_at k) (rb_node (items cac))) = (t2, go)" by fact
  qed
  then have "dirty_consistent t2" by simp
  with p assms show ?thesis
    by (simp add: mark_item_dirty_def update_dirty_parents_def split: option.splits)
qed

lemma dirty_consistent_clear_item_dirty:
  assumes "dirty_consistent (rb_node (items cac))"
  shows "dirty_consistent (rb_node (items (clear_item_dirty cac k)))"
proof -
  let ?g = "\<lambda>i::cached_item. i\<lparr>dirty := dirty i AND NOT ITEM_DIRTY\<rparr>"
  obtain t2 go where p: "rb_propagate_from scoutfs_item_rb_cb (item_at k)
      (rb_update_at ?g (item_at k) (rb_node (items cac))) = (t2, go)"
    by (cases "rb_propagate_from scoutfs_item_rb_cb (item_at k)
      (rb_update_at ?g (item_at k) (rb_node (items cac)))") auto
  have "dirty_consistent t2 \<and> (\<not> go \<longrightarrow> tree_dirty t2 = tree_dirty (rb_node (items cac)))"
  proof (rule dirty_consistent_update_propagate[where g = ?g and loc = "item_at k"])
    show "\<And>l x r. dirty x = compute_item_dirty l x r \<Longrightarrow>
        dirty (?g x) = compute_item_dirty l (?g x) r"
      by (rule clear_keeps_consistent)
    show "\<And>x. item_at k (?g x) = item_at k x" by simp
    show "dirty_consistent (rb_node (items cac))" by fact
    show "rb_propagate_from scoutfs_item_rb_cb (item_at k)
      (rb_update_at ?g (item_at k) (rb_node (items cac))) = (t2, go)" by fact
  qed
  then have "dirty_consistent t2" by simp
  with p assms show ?thesis
    by (simp add: clear_item_dirty_def update_dirty_parents_def split: option.splits)
qed

lemma dirty_consistent_unlink_leftmost:
  "dirty_consistent (Node l x r) \<Longrightarrow>
   rb_unlink_leftmost scoutfs_item_rb_cb l x r = (s, t, go) \<Longrightarrow>
   dirty_consistent t \<and> (\<not> go \<longrightarrow> tree_dirty t = tree_dirty (Node l x r))"
proof (induction scoutfs_item_rb_cb l x r arbitrary: s t go rule: rb_unlink_leftmost.induct)
  case (1 s sr)
  then show ?case by auto
next
  case (2 ll lx lr x r)
  from 2(2) have cl: "dirty_consistent (Node ll lx lr)" and cr: "dirty_consistent r"
    and dx: "dirty x = compute_item_dirty (Node ll lx lr) x r" by simp_all
  obtain s' l' go1 where u: "rb_unlink_leftmost scoutfs_item_rb_cb ll lx lr = (s', l', go1)"
    by (cases "rb_unlink_leftmost scoutfs_item_rb_cb ll lx lr") auto
  from 2(1)[OF cl u] have c2: "dirty_consistent l'"
    and td: "\<not> go1 \<Longrightarrow> tree_dirty l' = tree_dirty (Node ll lx lr)" by simp_all
  from u 2(3) have st: "rb_propagate_step scoutfs_item_rb_cb go1 l' x r = (t, go)"
    by (auto split: prod.splits)
  have "\<not> go1 \<Longrightarrow> dirty x = compute_item_dirty l' x r"
    using consistent_same_children[OF td refl dx] by simp
  from dirty_consistent_step[OF c2 cr this st] tree_dirty_step[OF st]
  show ?case by auto
qed

lemma unlink_split:
  assumes f: "\<And>l x r. f (aug l x r) = f x"
  shows "rb_find loc t = Some y \<Longrightarrow>
   \<exists>xs ys. map f (inorder t) = xs @ f y # ys \<and>
           map f (inorder (fst (rb_unlink aug loc t))) = xs @ ys"
proof (induction t)
  case Leaf
  then show ?case by simp
next
  case (Node l x r)
  have s: "\<And>go l' r' z. map f (inorder (fst (rb_propagate_step aug go l' z r'))) =
      map f (inorder l') @ f z # map f (inorder r')"
    using f by (rule inorder_propagate_step)
  show ?case
  proof (cases "loc x < 0")
    case True
    with Node.prems have "rb_find loc l = Some y" by simp
    from Node.IH(1)[OF this] obtain xs ys where
      "map f (inorder l) = xs @ f y # ys" "map f (inorder (fst (rb_unlink aug loc l))) = xs @ ys"
      by blast
    then have "map f (inorder (Node l x r)) = xs @ f y # (ys @ f x # map f (inorder r))"
      "map f (inorder (fst (rb_unlink aug loc (Node l x r)))) = xs @ (ys @ f x # map f (inorder r))"
      using True s by (auto split: prod.splits)
    then show ?thesis by blast
  next
    case nl: False
    show ?thesis
    proof (cases "loc x > 0")
      case True
      with nl Node.prems have "rb_find loc r = Some y" by simp
      from Node.IH(2)[OF this] obtain xs ys where
        "map f (inorder r) = xs @ f y # ys" "map f (inorder (fst (rb_unlink aug loc r))) = xs @ ys"
        by blast
      then have "map f (inorder (Node l x r)) = (map f (inorder l) @ f x # xs) @ f y # ys"
        "map f (inorder (fst (rb_unlink aug loc (Node l x r)))) = (map f (inorder l) @ f x # xs) @ ys"
        using nl True s by (auto split: prod.splits)
      then show ?thesis by blast
    next
      case False
      with nl Node.prems have yx: "y = x" by simp
      have "map f (inorder (fst (rb_unlink aug loc (Node l x r)))) =
            map f (inorder l) @ map f (inorder r)"
      proof (cases l)
        case Leaf
        with nl False show ?thesis by simp
      next
        case ln: (Node ll lx lr)
        show ?thesis
        proof (cases r)
          case Leaf
          with nl False ln show ?thesis by simp
        next
          case rn: (Node rl sx sr)
          show ?thesis
          proof (cases rl)
            case Leaf
            with nl False ln rn s show ?thesis by (simp add: f)
          next
            case cn: (Node cll clx clr)
            obtain s' r' go where u: "rb_unlink_leftmost aug (Node cll clx clr) sx sr = (s', r', go)"
              by (cases "rb_unlink_leftmost aug (Node cll clx clr) sx sr") auto
            from inorder_unlink_leftmost[OF f u]
            have "map f (inorder r) = f s' # map f (inorder r')"
              using rn cn by simp
            with nl False ln rn cn u s show ?thesis by (simp add: f)
          qed
        qed
      qed
      with yx have "map f (inorder (Node l x r)) = map f (inorder l) @ f y # map f (inorder r)"
        "map f (inorder (fst (rb_unlink aug loc (Node l x r)))) = map f (inorder l) @ map f (inorder r)"
        by simp_all
      then show ?thesis by blast
    qed
  qed
qed

lemma unlink_miss_same: "rb_find loc t = None \<Longrightarrow> rb_unlink aug loc t = (t, False)"
  by (induction t) (auto simp: rb_propagate_step_def split: if_splits)

lemma has_dirty_item_unlink:
  assumes "rb_find loc t = Some y" "dirty y AND ITEM_DIRTY = 0"
  shows "has_dirty_item (fst (rb_unlink scoutfs_item_rb_cb loc t)) = has_dirty_item t"
proof -
  from unlink_split[of entry_of scoutfs_item_rb_cb, OF _ assms(1)] obtain xs ys where
    "map entry_of (inorder t) = xs @ entry_of y # ys"
    "map entry_of (inorder (fst (rb_unlink scoutfs_item_rb_cb loc t))) = xs @ ys"
    by auto
  with assms(2) show ?thesis
    by (auto simp: has_dirty_item_entries)
qed

lemma tree_dirty_unlink:
  assumes "dirty_consistent t" "dirty_consistent (fst (rb_unlink scoutfs_item_rb_cb loc t))"
    and "\<forall>y. rb_find loc t = Some y \<longrightarrow> dirty y AND ITEM_DIRTY = 0"
  shows "tree_dirty (fst (rb_unlink scoutfs_item_rb_cb loc t)) = tree_dirty t"
proof (cases "rb_find loc t")
  case None
  then show ?thesis by (simp add: unlink_miss_same)
next
  case (Some y)
  with assms(3) have "dirty y AND ITEM_DIRTY = 0" by simp
  from has_dirty_item_unlink[OF Some this] assms(1,2) show ?thesis
    by (simp add: tree_dirty_has_dirty_item)
qed

lemma dirty_consistent_unlink:
  "dirty_consistent t \<Longrightarrow> \<forall>y. rb_find loc t = Some y \<longrightarrow> dirty y AND ITEM_DIRTY = 0 \<Longrightarrow>
   dirty_consistent (fst (rb_unlink scoutfs_item_rb_cb loc t))"
proof (induction t)
  case Leaf
  then show ?case by simp
next
  case (Node l x r)
  from Node.prems(1) have cl: "dirty_consistent l" and cr: "dirty_consistent r"
    and dx: "dirty x = compute_item_dirty l x r" by simp_all
  show ?case
  proof (cases "loc x < 0")
    case True
    with Node.prems(2) have cf: "\<forall>y. rb_find loc l = Some y \<longrightarrow> dirty y AND ITEM_DIRTY = 0"
      by simp
    obtain l' go where u: "rb_unlink scoutfs_item_rb_cb loc l = (l', go)"
      by (cases "rb_unlink scoutfs_item_rb_cb loc l") auto
    from Node.IH(1)[OF cl cf] u have c2: "dirty_consistent l'" by simp
    from tree_dirty_unlink[OF cl _ cf] c2 u have td: "tree_dirty l' = tree_dirty l" by simp
    obtain t go' where s: "rb_propagate_step scoutfs_item_rb_cb go l' x r = (t, go')"
      by (cases "rb_propagate_step scoutfs_item_rb_cb go l' x r") auto
    have "\<not> go \<Longrightarrow> dirty x = compute_item_dirty l' x r"
      using consistent_same_children[OF td refl dx] by simp
    from dirty_consistent_step[OF c2 cr this s] True u s show ?thesis by simp
  next
    case nl: False
    show ?thesis
    proof (cases "loc x > 0")
      case True
      with nl Node.prems(2) have cf: "\<forall>y. rb_find loc r = Some y \<longrightarrow> dirty y AND ITEM_DIRTY = 0"
        by simp
      obtain r' go where u: "rb_unlink scoutfs_item_rb_cb loc r = (r', go)"
        by (cases "rb_unlink scoutfs_item_rb_cb loc r") auto
      from Node.IH(2)[OF cr cf] u have c2: "dirty_consistent r'" by simp
      from tree_dirty_unlink[OF cr _ cf] c2 u have td: "tree_dirty r' = tree_dirty r" by simp
      obtain t go' where s: "rb_propagate_step scoutfs_item_rb_cb go l x r' = (t, go')"
        by (cases "rb_propagate_step scoutfs_item_rb_cb go l x r'") auto
      have "\<not> go \<Longrightarrow> dirty x = compute_item_dirty l x r'"
        using consistent_same_children[OF refl td dx] by simp
      from dirty_consistent_step[OF cl c2 this s] nl True u s show ?thesis by simp
    next
      case False
      show ?thesis
      proof (cases l)
        case Leaf
        with nl False cr show ?thesis by simp
      next
        case ln: (Node ll lx lr)
        show ?thesis
        proof (cases r)
          case Leaf
          with nl False ln cl show ?thesis by simp
        next
          case rn: (Node rl sx sr)
          show ?thesis
          proof (cases rl)
            case Leaf
            from cr rn have csr: "dirty_consistent sr" by simp
            obtain t go' where s: "rb_propagate_step scoutfs_item_rb_cb True l
                (scoutfs_item_rb_cb Leaf sx sr) sr = (t, go')"
              by (cases "rb_propagate_step scoutfs_item_rb_cb True l
                (scoutfs_item_rb_cb Leaf sx sr) sr") auto
            from dirty_consistent_step[OF cl csr _ s] have "dirty_consistent t" by simp
            with nl False ln rn Leaf s show ?thesis by simp
          next
            case cn: (Node cll clx clr)
            obtain s' r' go where u: "rb_unlink_leftmost scoutfs_item_rb_cb (Node cll clx clr) sx sr = (s', r', go)"
              by (cases "rb_unlink_leftmost scoutfs_item_rb_cb (Node cll clx clr) sx sr") auto
            from cr rn cn have "dirty_consistent (Node (Node cll clx clr) sx sr)" by simp
            from dirty_consistent_unlink_leftmost[OF this u] have cr': "dirty_consistent r'" by simp
            obtain t go' where s: "rb_propagate_step scoutfs_item_rb_cb True l
                (scoutfs_item_rb_cb Leaf s' r) r' = (t, go')"
              by (cases "rb_propagate_step scoutfs_item_rb_cb True l
                (scoutfs_item_rb_cb Leaf s' r) r'") auto
            from dirty_consistent_step[OF cl cr' _ s] have "dirty_consistent t" by simp
            with nl False ln rn cn u s show ?thesis by simp
          qed
        qed
      qed
    qed
  qed
qed

lemma rb_find_clear_item_dirty_clean:
  "rb_find (item_at k) (rb_node (items (clear_item_dirty cac k))) = Some y \<Longrightarrow>
   dirty y AND ITEM_DIRTY = 0"
proof -
  let ?g = "\<lambda>i::cached_item. i\<lparr>dirty := dirty i AND NOT ITEM_DIRTY\<rparr>"
  let ?b = "\<lambda>i::cached_item. dirty i AND ITEM_DIRTY"
  assume a: "rb_find (item_at k) (rb_node (items (clear_item_dirty cac k))) = Some y"
  show ?thesis
  proof (cases "rb_find (item_at k) (rb_node (items cac))")
    case None
    with a show ?thesis by (simp add: clear_item_dirty_def)
  next
    case (Some item)
    show ?thesis
    proof (cases "dirty item AND ITEM_DIRTY = 0")
      case True
      with Some a show ?thesis by (simp add: clear_item_dirty_def)
    next
      case False
      have "map_option ?b (rb_find (item_at k)
              (fst (rb_propagate_from scoutfs_item_rb_cb (item_at k)
                 (rb_update_at ?g (item_at k) (rb_node (items cac)))))) =
            map_option ?b (rb_find (item_at k) (rb_update_at ?g (item_at k) (rb_node (items cac))))"
        by (rule rb_find_propagate_from) (simp_all add: scoutfs_item_rb_cb_def compute_item_bit)
      also have "\<dots> = map_option ?b (map_option ?g (rb_find (item_at k) (rb_node (items cac))))"
        by (simp add: rb_find_update_at)
      finally show ?thesis
        using Some False a
        by (simp add: clear_item_dirty_def update_dirty_parents_def ITEM_DIRTY_def)
    qed
  qed
qed

lemma dirty_consistent_erase_item:
  assumes "dirty_consistent (rb_node (items cac))"
  shows "dirty_consistent (rb_node (items (erase_item cac k)))"
proof -
  let ?c = "clear_item_dirty cac k"
  have c: "dirty_consistent (rb_node (items ?c))"
    using assms by (rule dirty_consistent_clear_item_dirty)
  have "\<forall>y. rb_find (item_at k) (rb_node (items ?c)) = Some y \<longrightarrow> dirty y AND ITEM_DIRTY = 0"
    using rb_find_clear_item_dirty_clean by blast
  from dirty_consistent_unlink[OF c this] show ?thesis
    by (simp add: erase_item_def Let_def rb_erase_augmented_def dirty_consistent_rebalance)
qed

lemma dirty_consistent_descend_link:
  "dirty ins = 0 \<Longrightarrow> dirty_consistent t \<Longrightarrow> insert_item_descend ins t = (t', None) \<Longrightarrow>
   dirty_consistent t' \<and> tree_dirty t' = tree_dirty t"
proof (induction t arbitrary: t')
  case Leaf
  then show ?case
    by (auto simp: compute_item_dirty_def)
next
  case (Node l x r)
  from Node.prems(2) have cl: "dirty_consistent l" and cr: "dirty_consistent r"
    and dx: "dirty x = compute_item_dirty l x r" by simp_all
  show ?case
  proof (cases "scoutfs_key_compare (key ins) (key x) < 0")
    case True
    with Node.prems obtain l' where d: "insert_item_descend ins l = (l', None)"
      and t': "t' = Node l' x r"
      by (auto simp: Let_def split: prod.splits)
    from Node.IH(1)[OF Node.prems(1) cl d] have c2: "dirty_consistent l'"
      and td: "tree_dirty l' = tree_dirty l" by simp_all
    from consistent_same_children[OF td refl dx] c2 cr t' show ?thesis by simp
  next
    case nl: False
    show ?thesis
    proof (cases "scoutfs_key_compare (key ins) (key x) > 0")
      case True
      with nl Node.prems obtain r' where d: "insert_item_descend ins r = (r', None)"
        and t': "t' = Node l x r'"
        by (auto simp: Let_def split: prod.splits)
      from Node.IH(2)[OF Node.prems(1) cr d] have c2: "dirty_consistent r'"
        and td: "tree_dirty r' = tree_dirty r" by simp_all
      from consistent_same_children[OF refl td dx] c2 cl t' show ?thesis by simp
    next
      case False
      with nl Node.prems(3) show ?thesis by (simp add: Let_def)
    qed
  qed
qed

lemma dirty_consistent_insert_item:
  "dirty ins = 0 \<Longrightarrow> dirty_consistent (rb_node (items cac)) \<Longrightarrow>
   dirty_consistent (rb_node (items (snd (insert_item cac ins))))"
proof (induction cac ins rule: insert_item.induct)
  case (1 cac ins)
  obtain t hit where d: "insert_item_descend ins (rb_node (items cac)) = (t, hit)"
    by (cases "insert_item_descend ins (rb_node (items cac))") auto
  show ?case
  proof (cases hit)
    case None
    from dirty_consistent_descend_link[OF 1(2,3) d[unfolded None]]
    have "dirty_consistent t" by simp
    then have "dirty_consistent (rb_node (rb_insert_augmented scoutfs_item_rb_cb ((items cac)\<lparr>rb_node := t\<rparr>)))"
      by (simp add: rb_insert_augmented_def dirty_consistent_rebalance)
    with d None show ?thesis by (simp add: insert_item.simps[of cac ins])
  next
    case (Some item)
    with d 1(2) have t: "t = rb_node (items cac)"
      using insert_item_descend_clean_hit by blast
    show ?thesis
    proof (cases "deletion item")
      case False
      with d Some t 1(3) show ?thesis by (simp add: insert_item.simps[of cac ins])
    next
      case True
      from True have nn: "\<not> \<not> deletion item" by simp
      have "dirty_consistent (rb_node (items (erase_item cac (key item))))"
        using 1(3) by (rule dirty_consistent_erase_item)
      with t have e: "dirty_consistent (rb_node (items
          (erase_item (cac\<lparr>items := (items cac)\<lparr>rb_node := t\<rparr>\<rparr>) (key item))))"
        by simp
      from 1(1)[OF d[symmetric] Some nn 1(2) e] d Some True show ?thesis
        by (simp add: insert_item.simps[of cac ins])
    qed
  qed
qed

lemma dirty_consistent_set_item_val:
  "dirty_consistent (rb_node (items cac)) \<Longrightarrow>
   dirty_consistent (rb_node (items (set_item_val cac k v)))"
  using dirty_consistent_update_at[of "\<lambda>i. i\<lparr>val := v\<rparr>" "rb_node (items cac)" "item_at k"]
  by (simp add: set_item_val_def)

lemma dirty_consistent_become_deletion_item:
  assumes "dirty_consistent (rb_node (items cac))"
  shows "dirty_consistent (rb_node (items (become_deletion_item cac k)))"
proof -
  let ?c = "cac\<lparr>items := (items cac)\<lparr>rb_node :=
              rb_update_at (\<lambda>i. i\<lparr>val := None, deletion := True\<rparr>) (item_at k)
                (rb_node (items cac))\<rparr>\<rparr>"
  have "dirty_consistent (rb_node (items ?c))"
    using dirty_consistent_update_at[of "\<lambda>i. i\<lparr>val := None, deletion := True\<rparr>"
        "rb_node (items cac)" "item_at k"] assms
    by simp
  then show ?thesis
    unfolding become_deletion_item_def by (rule dirty_consistent_mark_item_dirty)
qed

lemma and7_nonzero: "(d::64 word) \<le> 7 \<Longrightarrow> d AND 7 \<noteq> 0 \<longleftrightarrow> d \<noteq> 0"
  by (drule dirty_cases) auto

lemma any_dirty_bit:
  "dirty_consistent t \<Longrightarrow>
   (\<exists>d\<in>set_tree t. dirty d AND (ITEM_DIRTY OR LEFT_DIRTY OR RIGHT_DIRTY) \<noteq> 0) \<longleftrightarrow> tree_dirty t"
proof (induction t)
  case Leaf
  then show ?case by simp
next
  case (Node l x r)
  then have il: "(\<exists>d\<in>set_tree l. dirty d AND (ITEM_DIRTY OR LEFT_DIRTY OR RIGHT_DIRTY) \<noteq> 0) = tree_dirty l"
    and ir: "(\<exists>d\<in>set_tree r. dirty d AND (ITEM_DIRTY OR LEFT_DIRTY OR RIGHT_DIRTY) \<noteq> 0) = tree_dirty r"
    and dx: "dirty x = compute_item_dirty l x r"
    by simp_all
  have m: "ITEM_DIRTY OR LEFT_DIRTY OR RIGHT_DIRTY = (7::64 word)"
    by (simp add: ITEM_DIRTY_def LEFT_DIRTY_def RIGHT_DIRTY_def)
  have "compute_item_dirty l x r \<le> 7" by (rule compute_le7)
  then have x7: "compute_item_dirty l x r AND 7 \<noteq> 0 \<longleftrightarrow> compute_item_dirty l x r \<noteq> 0"
    by (rule and7_nonzero)
  have nz: "tree_dirty l \<or> tree_dirty r \<Longrightarrow> compute_item_dirty l x r \<noteq> 0"
    by (auto simp: compute_nonzero)
  have "(\<exists>d\<in>set_tree (Node l x r). dirty d AND (ITEM_DIRTY OR LEFT_DIRTY OR RIGHT_DIRTY) \<noteq> 0) \<longleftrightarrow>
        tree_dirty l \<or> compute_item_dirty l x r AND 7 \<noteq> 0 \<or> tree_dirty r"
    unfolding il[symmetric] ir[symmetric] m[symmetric] dx[symmetric]
    by (simp only: tree.set bex_Un) blast
  also have "\<dots> \<longleftrightarrow> compute_item_dirty l x r \<noteq> 0"
    unfolding x7 using nz by blast
  also have "\<dots> \<longleftrightarrow> tree_dirty (Node l x r)"
    using dx by (simp only: tree_dirty.simps)
  finally show ?case .
qed

lemma summary_ok_consistent: "dirty_consistent t \<Longrightarrow> summary_ok t"
proof (induction t)
  case Leaf
  then show ?case by simp
next
  case (Node l x r)
  then have sl: "summary_ok l" and sr: "summary_ok r" and cl: "dirty_consistent l"
    and cr: "dirty_consistent r" and dx: "dirty x = compute_item_dirty l x r"
    by simp_all
  have "dirty x AND LEFT_DIRTY \<noteq> 0 \<longleftrightarrow> tree_dirty l"
    unfolding dx compute_left_bit node_dirty_bit_tree_dirty by (simp add: LEFT_DIRTY_def)
  moreover have "dirty x AND RIGHT_DIRTY \<noteq> 0 \<longleftrightarrow> tree_dirty r"
    unfolding dx compute_right_bit node_dirty_bit_tree_dirty by (simp add: RIGHT_DIRTY_def)
  ultimately show ?case
    using sl sr any_dirty_bit[OF cl] any_dirty_bit[OF cr]
    by (simp only: summary_ok.simps)
qed

section \<open>The item that a deletion leaves\<close>

lemma rb_find_mark_item_dirty_entry:
  assumes "rb_find (item_at k) (rb_node (items cac)) = Some x"
  shows "\<exists>y. rb_find (item_at k) (rb_node (items (mark_item_dirty cac k))) = Some y \<and>
             entry_of y = (entry_of x)\<lparr>dirty := ITEM_DIRTY\<rparr>"
proof (cases "dirty x AND ITEM_DIRTY \<noteq> 0")
  case True
  then have "dirty x AND ITEM_DIRTY = ITEM_DIRTY"
    using and1_cases[of "dirty x"] by (auto simp: ITEM_DIRTY_def)
  then have "(entry_of x)\<lparr>dirty := ITEM_DIRTY\<rparr> = entry_of x" by (simp add: entry_of_def)
  with True assms show ?thesis by (simp add: mark_item_dirty_def)
next
  case False
  let ?g = "\<lambda>i::cached_item. i\<lparr>dirty := dirty i OR ITEM_DIRTY\<rparr>"
  let ?u = "rb_update_at ?g (item_at k) (rb_node (items cac))"
  have m: "rb_node (items (mark_item_dirty cac k)) = update_dirty_parents k ?u"
    using False assms by (simp add: mark_item_dirty_def)
  have "map_option entry_of (rb_find (item_at k) (update_dirty_parents k ?u)) =
        map_option entry_of (rb_find (item_at k) ?u)"
    unfolding update_dirty_parents_def
    by (rule rb_find_propagate_from) simp_all
  also have "rb_find (item_at k) ?u = Some (?g x)"
    using assms by (simp add: rb_find_update_at)
  finally obtain y where y: "rb_find (item_at k) (update_dirty_parents k ?u) = Some y"
    and e: "entry_of y = entry_of (?g x)" by auto
  have "entry_of (?g x) = (entry_of x)\<lparr>dirty := ITEM_DIRTY\<rparr>"
    by (simp add: entry_of_def ITEM_DIRTY_def)
  with y e m show ?thesis by simp
qed

lemma rb_find_become_deletion_item:
  assumes "rb_find (item_at k) (rb_node (items cac)) = Some x"
  shows "\<exists>y. rb_find (item_at k) (rb_node (items (become_deletion_item cac k))) = Some y \<and>
             entry_of y = (entry_of x)\<lparr>dirty := ITEM_DIRTY, val := None, deletion := True\<rparr>"
proof -
  let ?g = "\<lambda>i::cached_item. i\<lparr>val := None, deletion := True\<rparr>"
  let ?c = "cac\<lparr>items := (items cac)\<lparr>rb_node := rb_update_at ?g (item_at k) (rb_node (items cac))\<rparr>\<rparr>"
  have "rb_find (item_at k) (rb_node (items ?c)) = Some (?g x)"
    using assms by (simp add: rb_find_update_at)
  from rb_find_mark_item_dirty_entry[OF this] show ?thesis
    by (auto simp: become_deletion_item_def entry_of_def)
qed

lemma tombstone_after_delete_dirty:
  assumes "find_item (items cac) k = Some item"
  shows "\<exists>t. rb_find (item_at k) (rb_node (items (scoutfs_item_delete_dirty cac k))) = Some t \<and>
             key t = k \<and> deletion t \<and> val t = None \<and> dirty t AND ITEM_DIRTY \<noteq> 0"
proof -
  from assms have f: "rb_find (item_at k) (rb_node (items cac)) = Some item" and k: "key item = k"
    by (auto simp: find_item_find rb_find_item_key split: option.splits if_splits)
  from rb_find_become_deletion_item[OF f] obtain y where
    y: "rb_find (item_at k) (rb_node (items (become_deletion_item cac k))) = Some y"
    and e: "entry_of y = (entry_of item)\<lparr>dirty := ITEM_DIRTY, val := None, deletion := True\<rparr>"
    by auto
  from e have "key (entry_of y) = k" "deletion (entry_of y)" "val (entry_of y) = None"
    "dirty (entry_of y) = ITEM_DIRTY"
    using k by simp_all
  then have "key y = k" "deletion y" "val y = None" "dirty y AND ITEM_DIRTY \<noteq> 0"
    by (simp_all add: ITEM_DIRTY_def)
  with y assms k show ?thesis by (simp add: scoutfs_item_delete_dirty_def)
qed

text \<open>
  C10. \<^verbatim>\<open>scoutfs_item_delete_dirty\<close> is a total function of the cache and the key. When
  no live item has the key (the key is absent or held by a deletion item) it returns the
  cache unchanged. When a live item has the key, the call leaves that item in the tree as
  a dirty deletion item with a null value, changes no other entry and no range, and
  \<^verbatim>\<open>find_item\<close> no longer finds the key. So a second call finds nothing: applying the
  function twice to the same key is the same as applying it once.
\<close>

theorem delete_dirty_noop_idempotent:
  "(find_item (items cac) k = None \<longrightarrow> scoutfs_item_delete_dirty cac k = cac) \<and>
   (\<forall>item. find_item (items cac) k = Some item \<longrightarrow>
      (\<exists>t. rb_find (item_at k) (rb_node (items (scoutfs_item_delete_dirty cac k))) = Some t \<and>
           key t = k \<and> deletion t \<and> val t = None \<and> dirty t AND ITEM_DIRTY \<noteq> 0) \<and>
      (items_sorted (rb_node (items cac)) \<longrightarrow>
         entries (scoutfs_item_delete_dirty cac k) =
           map (\<lambda>e. if key e = k then e\<lparr>dirty := ITEM_DIRTY, val := None, deletion := True\<rparr> else e)
             (entries cac)) \<and>
      ranges (scoutfs_item_delete_dirty cac k) = ranges cac) \<and>
   find_item (items (scoutfs_item_delete_dirty cac k)) k = None \<and>
   scoutfs_item_delete_dirty (scoutfs_item_delete_dirty cac k) k = scoutfs_item_delete_dirty cac k"
proof (intro conjI allI impI)
  show "find_item (items cac) k = None \<Longrightarrow> scoutfs_item_delete_dirty cac k = cac"
    by (simp add: scoutfs_item_delete_dirty_def)
next
  fix item assume "find_item (items cac) k = Some item"
  then show "\<exists>t. rb_find (item_at k) (rb_node (items (scoutfs_item_delete_dirty cac k))) = Some t \<and>
           key t = k \<and> deletion t \<and> val t = None \<and> dirty t AND ITEM_DIRTY \<noteq> 0"
    by (rule tombstone_after_delete_dirty)
next
  fix item assume f: "find_item (items cac) k = Some item"
    and s: "items_sorted (rb_node (items cac))"
  from f have "key item = k" by (rule find_item_key)
  with f have "scoutfs_item_delete_dirty cac k = become_deletion_item cac k"
    by (simp add: scoutfs_item_delete_dirty_def)
  with entries_become_deletion_item[OF s, of k]
  show "entries (scoutfs_item_delete_dirty cac k) =
           map (\<lambda>e. if key e = k then e\<lparr>dirty := ITEM_DIRTY, val := None, deletion := True\<rparr> else e)
             (entries cac)"
    by simp
next
  fix item assume f: "find_item (items cac) k = Some item"
  show "ranges (scoutfs_item_delete_dirty cac k) = ranges cac"
    by (simp add: scoutfs_item_delete_dirty_def ranges_become_deletion_item split: option.splits)
next
  show "find_item (items (scoutfs_item_delete_dirty cac k)) k = None"
  proof (cases "find_item (items cac) k")
    case None
    then show ?thesis by (simp add: scoutfs_item_delete_dirty_def)
  next
    case (Some item)
    then have "key item = k" by (rule find_item_key)
    with Some show ?thesis
      by (simp add: scoutfs_item_delete_dirty_def find_item_become_deletion)
  qed
next
  show "scoutfs_item_delete_dirty (scoutfs_item_delete_dirty cac k) k = scoutfs_item_delete_dirty cac k"
  proof (cases "find_item (items cac) k")
    case None
    then show ?thesis by (simp add: scoutfs_item_delete_dirty_def)
  next
    case (Some item)
    then have "key item = k" by (rule find_item_key)
    with Some have d: "scoutfs_item_delete_dirty cac k = become_deletion_item cac k"
      by (simp add: scoutfs_item_delete_dirty_def)
    show ?thesis
      unfolding d by (simp add: scoutfs_item_delete_dirty_def find_item_become_deletion)
  qed
qed

text \<open>
  A cache with the live items 7 and 9, both dirty: deleting 7 turns it into a deletion
  item and leaves 9 alone, a second deletion of 7 changes nothing, and deleting the
  absent key 8 changes nothing.
\<close>

definition two_live_items :: item_cache where
  "two_live_items =
     \<lparr>items = \<lparr>rb_node = Node Leaf \<lparr>dirty = 5, deletion = False, key = [7], val = Some [1, 2]\<rparr>
                           (Node Leaf \<lparr>dirty = 1, deletion = False, key = [9], val = Some [3]\<rparr> Leaf),
               rb_sched = []\<rparr>,
      ranges = RB_ROOT, nr_dirty_items = 2, dirty_key_bytes = 2, dirty_val_bytes = 3\<rparr>"

theorem delete_dirty_noop_idempotent_witness:
  "find_item (items two_live_items) [7] =
     Some \<lparr>dirty = 5, deletion = False, key = [7], val = Some [1, 2]\<rparr> \<and>
   rb_node (items (scoutfs_item_delete_dirty two_live_items [7])) =
     Node Leaf \<lparr>dirty = 5, deletion = True, key = [7], val = None\<rparr>
       (Node Leaf \<lparr>dirty = 1, deletion = False, key = [9], val = Some [3]\<rparr> Leaf) \<and>
   find_item (items (scoutfs_item_delete_dirty two_live_items [7])) [7] = None \<and>
   scoutfs_item_delete_dirty (scoutfs_item_delete_dirty two_live_items [7]) [7] =
     scoutfs_item_delete_dirty two_live_items [7] \<and>
   find_item (items two_live_items) [8] = None \<and>
   scoutfs_item_delete_dirty two_live_items [8] = two_live_items"
proof -
  have f: "find_item (items two_live_items) [7] =
     Some \<lparr>dirty = 5, deletion = False, key = [7], val = Some [1, 2]\<rparr>"
    by code_simp
  have t: "rb_node (items (scoutfs_item_delete_dirty two_live_items [7])) =
     Node Leaf \<lparr>dirty = 5, deletion = True, key = [7], val = None\<rparr>
       (Node Leaf \<lparr>dirty = 1, deletion = False, key = [9], val = Some [3]\<rparr> Leaf)"
    by code_simp
  have n: "find_item (items two_live_items) [8] = None"
    by code_simp
  from delete_dirty_noop_idempotent[of two_live_items "[7]"]
    delete_dirty_noop_idempotent[of two_live_items "[8]"] f t n
  show ?thesis by simp
qed

text \<open>
  C9. When the search key is greater than the caller's last key, \<^verbatim>\<open>scoutfs_item_next\<close>
  returns \<^verbatim>\<open>-ENOENT\<close> whatever the trees hold, whatever the reader would answer and
  whether or not memory is available, and the cache is as it was.
\<close>

theorem next_past_last:
  "scoutfs_key_compare k last_key > 0 \<Longrightarrow>
   scoutfs_item_next mem ext cac k last_key cap = Some (Inl ENOENT, cac)"
  by (simp add: scoutfs_item_next_def)

theorem next_past_last_witness:
  "scoutfs_key_compare [3] [2, 9] > 0 \<and>
   scoutfs_item_next False
     \<lparr>key_max = [255], manifest_read = (\<lambda>s e. Inl EIO), seg_fits_single = (\<lambda>n k v. True)\<rparr>
     scoutfs_item_setup [3] [2, 9] (Some 4) = Some (Inl ENOENT, scoutfs_item_setup)"
  using next_past_last[of "[3]" "[2, 9]" False
      "\<lparr>key_max = [255], manifest_read = (\<lambda>s e. Inl EIO), seg_fits_single = (\<lambda>n k v. True)\<rparr>"
      scoutfs_item_setup "Some 4"]
  by simp

text \<open>
  C1, at the input where the code departs from it. After \<^verbatim>\<open>create(k, v)\<close> and
  \<^verbatim>\<open>delete(k)\<close> on an empty cache the item is a dirty deletion item with a null value,
  so the value lengths of the dirty items sum to 0, but \<open>dirty_val_bytes\<close> still holds
  the length of \<open>v\<close>: \<^verbatim>\<open>become_deletion_item\<close> drops the value of an item that is
  already dirty, and \<^verbatim>\<open>mark_item_dirty\<close> returns early for it.
\<close>

theorem delete_leaves_val_bytes:
  "map_option
     (\<lambda>(ret, cac). (ret, dirty_val_bytes cac,
                     (\<Sum>i\<leftarrow>dirty_items cac. int (scoutfs_kvec_length (val i))), counters_ok cac))
     (scoutfs_item_delete True
        \<lparr>key_max = [255], manifest_read = (\<lambda>s e. Inl EIO), seg_fits_single = (\<lambda>n k v. True)\<rparr>
        (snd (scoutfs_item_create True scoutfs_item_setup [2] (Some [120, 121, 122]))) [2]) =
   Some (Inr (), 3, 0, False)"
proof -
  have c: "scoutfs_item_create True scoutfs_item_setup [2] (Some [120, 121, 122]) =
    (Inr (), \<lparr>items = \<lparr>rb_node = Node Leaf \<lparr>dirty = 1, deletion = False, key = [2], val = Some [120, 121, 122]\<rparr> Leaf, rb_sched = []\<rparr>,
       ranges = RB_ROOT, nr_dirty_items = 1, dirty_key_bytes = 1, dirty_val_bytes = 3\<rparr>)"
    by code_simp
  show ?thesis
    unfolding c
    by (simp add: scoutfs_item_delete_def delete_loop.simps find_item_def walk_items_def
        become_deletion_item_def mark_item_dirty_def item_at_def ITEM_DIRTY_def
        counters_ok_def dirty_items_def scoutfs_kvec_length_def)
qed

text \<open>
  C8, at the input where the code departs from it. With \<open>start > end\<close>
  \<^verbatim>\<open>scoutfs_item_insert_batch\<close> returns \<^verbatim>\<open>-EINVAL\<close> before it reaches the label that
  frees the batch, and the caller's list still holds the staged item.
\<close>

theorem insert_batch_einval_keeps_list:
  "scoutfs_item_insert_batch True scoutfs_item_setup
     [\<lparr>dirty = 0, deletion = False, key = [1], val = Some [97]\<rparr>] [2] [1] =
   (Inl EINVAL, scoutfs_item_setup, [\<lparr>dirty = 0, deletion = False, key = [1], val = Some [97]\<rparr>])"
  by (simp add: scoutfs_item_insert_batch_def)

lemma counters_clear_found:
  "rb_find (item_at k) (rb_node (items cac)) = Some x \<Longrightarrow>
   counters (clear_item_dirty cac k) =
     (if dirty x AND ITEM_DIRTY = 0 then counters cac
      else (nr_dirty_items cac - 1, dirty_key_bytes cac - int (key_len (key x)),
            dirty_val_bytes cac - int (scoutfs_kvec_length (val x))))"
  by (simp add: clear_item_dirty_def counters_def)

text \<open>
  C6. On a tree with ascending keys, \<^verbatim>\<open>insert_item\<close> of an item fresh from
  \<^verbatim>\<open>alloc_item\<close> does one of three things. If a live item has the key it returns
  \<^verbatim>\<open>-EEXIST\<close> and the cache is unchanged. If a deletion item has the key, that item is
  erased, the three dirty counters are reduced by its share when it was dirty, and the new
  item takes its place among the entries, clean. If no item has the key the new item is
  put at its place in key order and the counters are unchanged. \<open>entries_put\<close> drops any
  entry with the key and puts the new one between the smaller and the greater keys.
\<close>

theorem insert_item_three_cases:
  assumes "items_sorted (rb_node (items cac))" and "alloc_item True k v = Some ins"
  shows "case rb_find (item_at k) (rb_node (items cac)) of
           Some x \<Rightarrow>
             if \<not> deletion x then insert_item cac ins = (Inl EEXIST, cac)
             else (\<exists>cac'. insert_item cac ins = (Inr (), cac') \<and>
                    entries cac' = entries_put ins (entries cac) \<and>
                    counters cac' =
                      (if dirty x AND ITEM_DIRTY = 0 then counters cac
                       else (nr_dirty_items cac - 1, dirty_key_bytes cac - int (key_len (key x)),
                             dirty_val_bytes cac - int (scoutfs_kvec_length (val x)))) \<and>
                    ranges cac' = ranges cac)
         | None \<Rightarrow>
             (\<exists>cac'. insert_item cac ins = (Inr (), cac') \<and>
                    entries cac' = entries_put ins (entries cac) \<and>
                    counters cac' = counters cac \<and> ranges cac' = ranges cac)"
proof -
  from assms(2) have i: "dirty ins = 0" "key ins = k"
    by (auto simp: alloc_item_def)
  show ?thesis
  proof (cases "rb_find (item_at k) (rb_node (items cac))")
    case None
    with insert_item_sorted[OF assms(1) i(1)] i(2) show ?thesis by simp
  next
    case (Some x)
    show ?thesis
    proof (cases "deletion x")
      case False
      with Some insert_item_sorted[OF assms(1) i(1)] i(2) show ?thesis by simp
    next
      case True
      with Some insert_item_sorted[OF assms(1) i(1)] i(2) counters_clear_found[OF Some]
      show ?thesis by simp
    qed
  qed
qed

theorem insert_item_three_cases_witness:
  "items_sorted (rb_node (items
      \<lparr>items = \<lparr>rb_node = Node Leaf \<lparr>dirty = 1, deletion = True, key = [2], val = None\<rparr> Leaf, rb_sched = []\<rparr>,
       ranges = RB_ROOT, nr_dirty_items = 1, dirty_key_bytes = 1, dirty_val_bytes = 0\<rparr>)) \<and>
   alloc_item True [2] (Some [9]) = Some \<lparr>dirty = 0, deletion = False, key = [2], val = Some [9]\<rparr> \<and>
   (\<exists>cac'. insert_item
      \<lparr>items = \<lparr>rb_node = Node Leaf \<lparr>dirty = 1, deletion = True, key = [2], val = None\<rparr> Leaf, rb_sched = []\<rparr>,
       ranges = RB_ROOT, nr_dirty_items = 1, dirty_key_bytes = 1, dirty_val_bytes = 0\<rparr>
      \<lparr>dirty = 0, deletion = False, key = [2], val = Some [9]\<rparr> = (Inr (), cac') \<and>
      entries cac' = [\<lparr>dirty = 0, deletion = False, key = [2], val = Some [9]\<rparr>] \<and>
      counters cac' = (0, 0, 0))"
proof -
  have s: "items_sorted (rb_node (items
      \<lparr>items = \<lparr>rb_node = Node Leaf \<lparr>dirty = 1, deletion = True, key = [2], val = None\<rparr> Leaf, rb_sched = []\<rparr>,
       ranges = RB_ROOT, nr_dirty_items = 1, dirty_key_bytes = 1, dirty_val_bytes = 0\<rparr>))"
    by (simp add: items_sorted_def)
  have a: "alloc_item True [2] (Some [9]) = Some \<lparr>dirty = 0, deletion = False, key = [2], val = Some [9]\<rparr>"
    by (simp add: alloc_item_def)
  from insert_item_three_cases[OF s a] s a show ?thesis
    by (auto simp add: item_at_def entries_def entries_put_def entry_of_def counters_def
          ITEM_DIRTY_def key_len_def scoutfs_kvec_length_def)
qed

text \<open>
  What a batch does to the entries, in the words of the specification: a staged item whose
  key is held by a live entry is discarded; any other staged item is put among the
  entries, in the place of a deletion entry with its key if there is one.
\<close>

fun batch_entries :: "cached_item list \<Rightarrow> cached_item list \<Rightarrow> cached_item list" where
  "batch_entries [] es = es"
| "batch_entries (i # rest) es =
     batch_entries rest
       (if (\<exists>e\<in>set es. key e = key i \<and> \<not> deletion e) then es else entries_put i es)"

lemma free_batch_empty [simp]: "scoutfs_item_free_batch list = []"
  by (induction list) simp_all

lemma live_entry_iff:
  assumes s: "items_sorted (rb_node (items cac))"
  shows "(\<exists>e\<in>set (entries cac). key e = k \<and> \<not> deletion e) \<longleftrightarrow>
         (\<exists>x. rb_find (item_at k) (rb_node (items cac)) = Some x \<and> \<not> deletion x)"
proof
  assume "\<exists>e\<in>set (entries cac). key e = k \<and> \<not> deletion e"
  then obtain e where e: "e \<in> set (entries cac)" "key e = k" "\<not> deletion e" by auto
  from entry_found[OF s] e(1) obtain x where
    "rb_find (item_at (key e)) (rb_node (items cac)) = Some x" "entry_of x = e"
    unfolding entries_def by blast
  with e show "\<exists>x. rb_find (item_at k) (rb_node (items cac)) = Some x \<and> \<not> deletion x"
    by auto
next
  assume "\<exists>x. rb_find (item_at k) (rb_node (items cac)) = Some x \<and> \<not> deletion x"
  then obtain x where x: "rb_find (item_at k) (rb_node (items cac)) = Some x" "\<not> deletion x"
    by auto
  from s x(1) have "x \<in> set_tree (rb_node (items cac))" "key x = k"
    by (simp_all add: rb_find_sorted)
  then have "entry_of x \<in> set (entries cac)" "key (entry_of x) = k"
    by (simp_all add: entries_def)
  with x(2) show "\<exists>e\<in>set (entries cac). key e = k \<and> \<not> deletion e"
    by (intro bexI[of _ "entry_of x"]) simp_all
qed

lemma insert_batch_items_entries:
  "items_sorted (rb_node (items cac)) \<Longrightarrow> \<forall>i\<in>set list. dirty i = 0 \<Longrightarrow>
   \<exists>cac' kept'. insert_batch_items cac list kept = (cac', kept') \<and>
      entries cac' = batch_entries list (entries cac) \<and>
      items_sorted (rb_node (items cac')) \<and> ranges cac' = ranges cac"
proof (induction list arbitrary: cac kept)
  case Nil
  then show ?case by simp
next
  case (Cons i rest)
  from Cons.prems have c: "dirty i = 0" and cr: "\<forall>i\<in>set rest. dirty i = 0" by simp_all
  note s = Cons.prems(1)
  show ?case
  proof (cases "\<exists>x. rb_find (item_at (key i)) (rb_node (items cac)) = Some x \<and> \<not> deletion x")
    case True
    then have l: "\<exists>e\<in>set (entries cac). key e = key i \<and> \<not> deletion e"
      using live_entry_iff[OF s] by simp
    from True insert_item_sorted[OF s c] have "insert_item cac i = (Inl EEXIST, cac)"
      by auto
    moreover from l have "batch_entries (i # rest) (entries cac) = batch_entries rest (entries cac)"
      by simp
    ultimately show ?thesis
      using Cons.IH[OF s cr, of "i # kept"] by simp
  next
    case False
    then have l: "\<not> (\<exists>e\<in>set (entries cac). key e = key i \<and> \<not> deletion e)"
      using live_entry_iff[OF s] by simp
    from False insert_item_sorted[OF s c] obtain cac1 where
      r: "insert_item cac i = (Inr (), cac1)"
      by (cases "rb_find (item_at (key i)) (rb_node (items cac))") auto
    from insert_item_sorted_result[OF s c r]
    have e1: "entries cac1 = entries_put i (entries cac)"
      and s1: "items_sorted (rb_node (items cac1))" and r1: "ranges cac1 = ranges cac"
      by simp_all
    from l have b: "batch_entries (i # rest) (entries cac) = batch_entries rest (entries_put i (entries cac))"
      by auto
    from Cons.IH[OF s1 cr, of kept] r e1 r1 show ?thesis
      unfolding b by simp
  qed
qed


lemma create_sorted_result:
  assumes s: "items_sorted (rb_node (items cac))"
    and r: "scoutfs_item_create True cac k v = (Inr u, c1)"
  shows "items_sorted (rb_node (items c1)) \<and> ranges c1 = ranges cac \<and>
         entries c1 =
           map (\<lambda>e. if key e = k then e\<lparr>dirty := ITEM_DIRTY\<rparr> else e)
             (entries_put \<lparr>dirty = 0, deletion = False, key = k, val = v\<rparr> (entries cac))"
proof -
  let ?ins = "\<lparr>dirty = 0, deletion = False, key = k, val = v\<rparr>"
  from r obtain c0 where i: "insert_item cac ?ins = (Inr (), c0)"
    and c1: "c1 = mark_item_dirty c0 k"
    by (auto simp: scoutfs_item_create_def alloc_item_def split: prod.splits sum.splits)
  have c: "dirty ?ins = 0" by simp
  from insert_item_sorted_result[OF s c i]
  have e0: "entries c0 = entries_put ?ins (entries cac)"
    and s0: "items_sorted (rb_node (items c0))" and r0: "ranges c0 = ranges cac"
    by simp_all
  from s0 have "items_sorted (rb_node (items c1))"
    unfolding c1 by (rule sorted_mark_item_dirty)
  moreover have "entries c1 = map (\<lambda>e. if key e = k then e\<lparr>dirty := ITEM_DIRTY\<rparr> else e) (entries c0)"
    unfolding c1 using s0 by (rule entries_mark_item_dirty)
  ultimately show ?thesis using e0 r0 c1 by simp
qed

lemma live_entry_find_item:
  assumes s: "items_sorted (rb_node (items cac))"
    and e: "e \<in> set (entries cac)" "\<not> deletion e"
  shows "\<exists>x. find_item (items cac) (key e) = Some x \<and> entry_of x = e"
proof -
  from entry_found[OF s] e(1) obtain x where
    x: "rb_find (item_at (key e)) (rb_node (items cac)) = Some x" "entry_of x = e"
    unfolding entries_def by blast
  from x(2) e(2) have "\<not> deletion x" by auto
  with x show ?thesis by (simp add: find_item_find)
qed

lemma entry_in_entries_put: "entry_of ins \<in> set (entries_put ins es)"
  by (simp add: entries_put_def)

lemma insert_batch_single:
  assumes s: "items_sorted (rb_node (items cac))" and c: "dirty b = 0"
    and t: "find_item (items cac) (key b) = None"
  shows "\<exists>c3. scoutfs_item_insert_batch True cac [b] (key b) (key b) = (Inr (), c3, []) \<and>
           items_sorted (rb_node (items c3)) \<and> entries c3 = entries_put b (entries cac)"
proof -
  let ?c = "cac\<lparr>ranges := insert_range (ranges cac) \<lparr>range_start = key b, range_end = key b\<rparr>\<rparr>"
  have s': "items_sorted (rb_node (items ?c))" using s by simp
  from t have nl: "\<not> (\<exists>x. rb_find (item_at (key b)) (rb_node (items ?c)) = Some x \<and> \<not> deletion x)"
    by (auto simp: find_item_find split: option.splits if_splits)
  then obtain c3 where r: "insert_item ?c b = (Inr (), c3)"
    using insert_item_sorted[OF s' c]
    by (cases "rb_find (item_at (key b)) (rb_node (items ?c))") auto
  from insert_item_sorted_result[OF s' c r]
  have "entries c3 = entries_put b (entries ?c)" "items_sorted (rb_node (items c3))" by simp_all
  moreover have "entries ?c = entries cac" by (simp add: entries_def)
  ultimately show ?thesis
    using r by (simp add: scoutfs_item_insert_batch_def Let_def)
qed

section \<open>The dirty counters across a batch\<close>

text \<open>
  What the three counters hold beyond the totals of the dirty items of the tree: all
  three are zero when the counters are what the specification says they are.
\<close>

definition counter_gap :: "item_cache \<Rightarrow> int \<times> int \<times> int" where
  "counter_gap cac =
     (nr_dirty_items cac - int (length (dirty_items cac)),
      dirty_key_bytes cac - (\<Sum>i\<leftarrow>dirty_items cac. int (key_len (key i))),
      dirty_val_bytes cac - (\<Sum>i\<leftarrow>dirty_items cac. int (scoutfs_kvec_length (val i))))"

definition esum :: "(cached_item \<Rightarrow> int) \<Rightarrow> cached_item list \<Rightarrow> int" where
  "esum w es = (\<Sum>e\<leftarrow>filter (\<lambda>e. dirty e \<noteq> 0) es. w e)"

lemma esum_Nil [simp]: "esum w [] = 0"
  by (simp add: esum_def)

lemma esum_Cons [simp]: "esum w (e # es) = (if dirty e \<noteq> 0 then w e else 0) + esum w es"
  by (simp add: esum_def)

lemma esum_append [simp]: "esum w (xs @ ys) = esum w xs + esum w ys"
  by (simp add: esum_def)

lemma esum_split:
  "esum w es = esum w (filter (\<lambda>e. key e < k) es) + esum w (filter (\<lambda>e. key e = k) es) +
               esum w (filter (\<lambda>e. k < key e) es)"
proof (induction es)
  case Nil
  then show ?case by simp
next
  case (Cons a es)
  consider "key a < k" | "key a = k" | "k < key a" using less_linear by blast
  then show ?case
  proof cases
    case 1
    then have "\<not> k < key a" "key a \<noteq> k" by auto
    with 1 Cons show ?thesis by simp
  next
    case 2
    with Cons show ?thesis by simp
  next
    case 3
    then have "\<not> key a < k" "key a \<noteq> k" by auto
    with 3 Cons show ?thesis by simp
  qed
qed

lemma esum_entries_put:
  assumes "dirty ins = 0"
  shows "esum w (entries_put ins es) = esum w es - esum w (filter (\<lambda>e. key e = key ins) es)"
proof -
  have "dirty (entry_of ins) = 0" using assms by (simp add: entry_of_def)
  then have "esum w (entries_put ins es) =
        esum w (filter (\<lambda>e. key e < key ins) es) + esum w (filter (\<lambda>e. key ins < key e) es)"
    unfolding entries_put_def esum_append esum_Cons by simp
  with esum_split[of w es "key ins"] show ?thesis by arith
qed

lemma dirty_items_entries:
  "map entry_of (dirty_items cac) = filter (\<lambda>e. dirty e \<noteq> 0) (entries cac)"
  by (simp add: dirty_items_def entries_def filter_map comp_def)

lemma dirty_items_esum:
  assumes "\<And>i. w (entry_of i) = w i"
  shows "(\<Sum>i\<leftarrow>dirty_items cac. w i) = esum w (entries cac)"
proof -
  have "(\<Sum>i\<leftarrow>dirty_items cac. w i) = (\<Sum>e\<leftarrow>map entry_of (dirty_items cac). w e)"
    by (simp add: comp_def assms)
  then show ?thesis by (simp add: dirty_items_entries esum_def)
qed

lemma length_dirty_items: "int (length (dirty_items cac)) = esum (\<lambda>e. 1) (entries cac)"
proof -
  have "int (length (dirty_items cac)) = (\<Sum>i\<leftarrow>dirty_items cac. 1)"
    by (simp add: sum_list_triv)
  then show ?thesis by (simp add: dirty_items_esum)
qed

lemma counter_gap_entries:
  "counter_gap cac =
     (nr_dirty_items cac - esum (\<lambda>e. 1) (entries cac),
      dirty_key_bytes cac - esum (\<lambda>e. int (key_len (key e))) (entries cac),
      dirty_val_bytes cac - esum (\<lambda>e. int (scoutfs_kvec_length (val e))) (entries cac))"
  by (simp add: counter_gap_def length_dirty_items dirty_items_esum)

lemma filter_key_unique:
  "distinct (map key es) \<Longrightarrow> e \<in> set es \<Longrightarrow> filter (\<lambda>y. key y = key e) es = [e]"
proof (induction es)
  case Nil
  then show ?case by simp
next
  case (Cons a es)
  from Cons.prems(1) have na: "\<And>y. y \<in> set es \<Longrightarrow> key y \<noteq> key a" and d: "distinct (map key es)"
    by (auto simp: image_iff)
  show ?case
  proof (cases "a = e")
    case True
    from na have "filter (\<lambda>y. key y = key a) es = []"
      by (simp add: filter_empty_conv)
    with True show ?thesis by simp
  next
    case False
    with Cons.prems(2) have m: "e \<in> set es" by simp
    with na have "key a \<noteq> key e" by metis
    with Cons.IH[OF d m] show ?thesis by simp
  qed
qed

lemma filter_key_entries:
  assumes s: "items_sorted (rb_node (items cac))"
  shows "filter (\<lambda>e. key e = k) (entries cac) =
         (case rb_find (item_at k) (rb_node (items cac)) of None \<Rightarrow> [] | Some x \<Rightarrow> [entry_of x])"
proof (cases "rb_find (item_at k) (rb_node (items cac))")
  case None
  with s have "k \<notin> key ` set (entries cac)" by (simp add: entries_absent)
  then have "filter (\<lambda>e. key e = k) (entries cac) = []"
    by (auto simp: filter_empty_conv)
  with None show ?thesis by simp
next
  case (Some x)
  with s have x: "x \<in> set_tree (rb_node (items cac))" and k: "key x = k"
    by (simp_all add: rb_find_sorted)
  from x have m: "entry_of x \<in> set (entries cac)" by (simp add: entries_def)
  from s have "distinct (map key (entries cac))"
    using sorted_distinct_keys[OF s] by (simp add: entries_def comp_def)
  from filter_key_unique[OF this m] k Some show ?thesis by simp
qed


lemma counter_gap_insert_item:
  assumes s: "items_sorted (rb_node (items cac))" and c: "dirty ins = 0"
  shows "counter_gap (snd (insert_item cac ins)) = counter_gap cac"
proof (cases "rb_find (item_at (key ins)) (rb_node (items cac))")
  case None
  with insert_item_sorted[OF s c] obtain cac' where
    r: "insert_item cac ins = (Inr (), cac')" and e: "entries cac' = entries_put ins (entries cac)"
    and n: "counters cac' = counters cac" by auto
  from None have "filter (\<lambda>e. key e = key ins) (entries cac) = []"
    by (simp add: filter_key_entries[OF s])
  with e c have "\<And>w. esum w (entries cac') = esum w (entries cac)"
    by (simp add: esum_entries_put)
  with n r show ?thesis by (simp add: counter_gap_entries counters_def)
next
  case (Some x)
  show ?thesis
  proof (cases "deletion x")
    case False
    with Some insert_item_sorted[OF s c] show ?thesis by simp
  next
    case True
    with Some insert_item_sorted[OF s c] obtain cac' where
      r: "insert_item cac ins = (Inr (), cac')" and e: "entries cac' = entries_put ins (entries cac)"
      and n: "counters cac' = counters (clear_item_dirty cac (key ins))" by auto
    from Some have f: "filter (\<lambda>e. key e = key ins) (entries cac) = [entry_of x]"
      by (simp add: filter_key_entries[OF s])
    from e c f have w: "\<And>w. esum w (entries cac') = esum w (entries cac) - esum w [entry_of x]"
      by (simp add: esum_entries_put)
    have d: "dirty (entry_of x) \<noteq> 0 \<longleftrightarrow> dirty x AND ITEM_DIRTY \<noteq> 0" by simp
    from r have "counter_gap (snd (insert_item cac ins)) = counter_gap cac'" by simp
    also have "\<dots> = counter_gap cac"
      using n counters_clear_found[OF Some]
      unfolding counter_gap_entries counters_def w esum_Cons esum_Nil d
      by (simp split: if_splits)
    finally show ?thesis .
  qed
qed

lemma counter_gap_ranges [simp]: "counter_gap (cac\<lparr>ranges := r\<rparr>) = counter_gap cac"
  by (simp add: counter_gap_def dirty_items_def)

lemma sorted_insert_item:
  assumes s: "items_sorted (rb_node (items cac))" and c: "dirty ins = 0"
  shows "items_sorted (rb_node (items (snd (insert_item cac ins))))"
proof (cases "insert_item cac ins")
  case (Pair ret cac')
  show ?thesis
  proof (cases ret)
    case (Inl e)
    have "cac' = cac"
    proof (cases "rb_find (item_at (key ins)) (rb_node (items cac))")
      case None
      with insert_item_sorted[OF s c] Pair Inl show ?thesis by auto
    next
      case (Some x)
      with insert_item_sorted[OF s c] Pair Inl show ?thesis by (cases "deletion x") auto
    qed
    with s Pair show ?thesis by simp
  next
    case (Inr u)
    with Pair insert_item_sorted_result[OF s c, of u cac'] show ?thesis by simp
  qed
qed

lemma counter_gap_insert_batch_items:
  "items_sorted (rb_node (items cac)) \<Longrightarrow> \<forall>i\<in>set list. dirty i = 0 \<Longrightarrow>
   counter_gap (fst (insert_batch_items cac list kept)) = counter_gap cac"
proof (induction list arbitrary: cac kept)
  case Nil
  then show ?case by simp
next
  case (Cons i rest)
  from Cons.prems have c: "dirty i = 0" and cr: "\<forall>i\<in>set rest. dirty i = 0" by simp_all
  note s = Cons.prems(1)
  obtain ret cac1 where r: "insert_item cac i = (ret, cac1)" by (cases "insert_item cac i") auto
  from sorted_insert_item[OF s c] r have s1: "items_sorted (rb_node (items cac1))" by simp
  from counter_gap_insert_item[OF s c] r have g1: "counter_gap cac1 = counter_gap cac" by simp
  show ?case
    using r g1 Cons.IH[OF s1 cr] by (cases ret) simp_all
qed

lemma counters_ok_gap: "counters_ok cac \<longleftrightarrow> counter_gap cac = (0, 0, 0)"
proof -
  have "0 \<le> (\<Sum>i\<leftarrow>dirty_items cac. int (key_len (key i)))"
    by (rule sum_list_nonneg) auto
  moreover have "0 \<le> (\<Sum>i\<leftarrow>dirty_items cac. int (scoutfs_kvec_length (val i)))"
    by (rule sum_list_nonneg) auto
  ultimately show ?thesis
    by (auto simp: counters_ok_def counter_gap_def)
qed

lemma counters_by_gap:
  "counter_gap cac' = counter_gap cac \<Longrightarrow>
   counters cac' =
     (nr_dirty_items cac - (int (length (dirty_items cac)) - int (length (dirty_items cac'))),
      dirty_key_bytes cac -
        ((\<Sum>i\<leftarrow>dirty_items cac. int (key_len (key i))) -
         (\<Sum>i\<leftarrow>dirty_items cac'. int (key_len (key i)))),
      dirty_val_bytes cac -
        ((\<Sum>i\<leftarrow>dirty_items cac. int (scoutfs_kvec_length (val i))) -
         (\<Sum>i\<leftarrow>dirty_items cac'. int (scoutfs_kvec_length (val i)))))"
  by (simp add: counter_gap_def counters_def)

lemma insert_batch_gap:
  assumes s: "items_sorted (rb_node (items cac))" and c: "\<forall>i\<in>set list. dirty i = 0"
    and r: "scoutfs_item_insert_batch True cac list start end_key = (Inr u, cac', rest)"
  shows "counter_gap cac' = counter_gap cac"
proof -
  let ?c = "cac\<lparr>ranges := insert_range (ranges cac) \<lparr>range_start = start, range_end = end_key\<rparr>\<rparr>"
  have s': "items_sorted (rb_node (items ?c))" using s by simp
  from r have "cac' = fst (insert_batch_items ?c list [])"
    by (auto simp: scoutfs_item_insert_batch_def Let_def split: if_splits prod.splits)
  with counter_gap_insert_batch_items[OF s' c, of "[]"] show ?thesis by simp
qed

lemma insert_batch_single_counters:
  assumes s: "items_sorted (rb_node (items cac))" and c: "dirty b = 0"
    and f: "rb_find (item_at (key b)) (rb_node (items cac)) = Some x" and d: "deletion x"
    and r: "scoutfs_item_insert_batch True cac [b] (key b) (key b) = (Inr u, c3, rest)"
  shows "counters c3 =
           (if dirty x AND ITEM_DIRTY = 0 then counters cac
            else (nr_dirty_items cac - 1, dirty_key_bytes cac - int (key_len (key x)),
                  dirty_val_bytes cac - int (scoutfs_kvec_length (val x))))"
proof -
  let ?c = "cac\<lparr>ranges := insert_range (ranges cac) \<lparr>range_start = key b, range_end = key b\<rparr>\<rparr>"
  have s': "items_sorted (rb_node (items ?c))" using s by simp
  have f': "rb_find (item_at (key b)) (rb_node (items ?c)) = Some x" using f by simp
  from insert_item_sorted[OF s' c] f' d obtain c' where
    i: "insert_item ?c b = (Inr (), c')"
    and n: "counters c' = counters (clear_item_dirty ?c (key b))" by auto
  from r i have "c3 = c'"
    by (simp add: scoutfs_item_insert_batch_def Let_def)
  with n counters_clear_found[OF f'] show ?thesis by (simp add: counters_def)
qed

text \<open>
  C2. On a cache with ascending keys, a batch of clean staged items (as
  \<^verbatim>\<open>scoutfs_item_add_batch\<close> makes them) with \<open>start \<le> end\<close> returns 0, leaves the
  caller's list empty and changes the entries as \<open>batch_entries\<close> says: only a staged
  item whose key is held by a live entry is discarded, and a staged item whose key is held
  by a deletion entry replaces it. Each of the three dirty counters drops by exactly what
  the dirty items of the tree lose, which is the share of the erased deletion items, so
  counters that were the totals of the dirty items still are.

  So after \<^verbatim>\<open>create(k, v)\<close> has returned 0, \<^verbatim>\<open>delete(k)\<close> returns 0 and leaves a dirty
  deletion item with a null value; a batch that stages \<open>(k, v')\<close> for the range
  \<open>[k, k]\<close> returns 0, puts the clean staged item in the place of the deletion item and
  takes the deletion item's share off the counters (one item, the bytes of its key, and
  no value bytes, its value being null); and \<^verbatim>\<open>lookup(k)\<close> then copies the bytes of
  \<open>v'\<close>: the pending deletion has been replaced by what the reader staged.
\<close>

theorem insert_batch_replaces_tombstone:
  assumes s: "items_sorted (rb_node (items cac))"
  shows "((\<forall>i\<in>set list. dirty i = 0) \<and> scoutfs_key_compare start end_key \<le> 0 \<longrightarrow>
           (\<exists>cac'. scoutfs_item_insert_batch True cac list start end_key = (Inr (), cac', []) \<and>
                   entries cac' = batch_entries list (entries cac) \<and>
                   counters cac' =
                     (nr_dirty_items cac -
                        (int (length (dirty_items cac)) - int (length (dirty_items cac'))),
                      dirty_key_bytes cac -
                        ((\<Sum>i\<leftarrow>dirty_items cac. int (key_len (key i))) -
                         (\<Sum>i\<leftarrow>dirty_items cac'. int (key_len (key i)))),
                      dirty_val_bytes cac -
                        ((\<Sum>i\<leftarrow>dirty_items cac. int (scoutfs_kvec_length (val i))) -
                         (\<Sum>i\<leftarrow>dirty_items cac'. int (scoutfs_kvec_length (val i))))) \<and>
                   (counters_ok cac \<longrightarrow> counters_ok cac'))) \<and>
         (scoutfs_item_create True cac k v = (Inr (), c1) \<longrightarrow>
           (\<exists>c2 c3 t. scoutfs_item_delete True ext c1 k = Some (Inr (), c2) \<and>
              rb_find (item_at k) (rb_node (items c2)) = Some t \<and>
              deletion t \<and> val t = None \<and> dirty t AND ITEM_DIRTY \<noteq> 0 \<and>
              scoutfs_item_insert_batch True c2 (snd (scoutfs_item_add_batch True [] k v')) k k =
                (Inr (), c3, []) \<and>
              entries c3 =
                entries_put \<lparr>dirty = 0, deletion = False, key = k, val = v'\<rparr> (entries c2) \<and>
              counters c3 =
                (nr_dirty_items c2 - 1, dirty_key_bytes c2 - int (key_len k), dirty_val_bytes c2) \<and>
              scoutfs_item_lookup True ext c3 k cap = Some (Inr (scoutfs_kvec_memcpy cap v'), c3)))"
proof (intro conjI impI)
  assume a: "(\<forall>i\<in>set list. dirty i = 0) \<and> scoutfs_key_compare start end_key \<le> 0"
  let ?c = "cac\<lparr>ranges := insert_range (ranges cac) \<lparr>range_start = start, range_end = end_key\<rparr>\<rparr>"
  have s': "items_sorted (rb_node (items ?c))" using s by simp
  from a have cl: "\<forall>i\<in>set list. dirty i = 0" by simp
  from insert_batch_items_entries[OF s' cl, of "[]"] obtain cac' kept' where
    "insert_batch_items ?c list [] = (cac', kept')" "entries cac' = batch_entries list (entries ?c)"
    by blast
  moreover have "entries ?c = entries cac" by (simp add: entries_def)
  ultimately have b: "scoutfs_item_insert_batch True cac list start end_key = (Inr (), cac', [])"
    and e: "entries cac' = batch_entries list (entries cac)"
    using a by (simp_all add: scoutfs_item_insert_batch_def Let_def)
  from insert_batch_gap[OF s cl b] have g: "counter_gap cac' = counter_gap cac" .
  then have o: "counters_ok cac \<longrightarrow> counters_ok cac'" by (simp add: counters_ok_gap)
  from b e counters_by_gap[OF g] o
  show "\<exists>cac'. scoutfs_item_insert_batch True cac list start end_key = (Inr (), cac', []) \<and>
                   entries cac' = batch_entries list (entries cac) \<and>
                   counters cac' =
                     (nr_dirty_items cac -
                        (int (length (dirty_items cac)) - int (length (dirty_items cac'))),
                      dirty_key_bytes cac -
                        ((\<Sum>i\<leftarrow>dirty_items cac. int (key_len (key i))) -
                         (\<Sum>i\<leftarrow>dirty_items cac'. int (key_len (key i)))),
                      dirty_val_bytes cac -
                        ((\<Sum>i\<leftarrow>dirty_items cac. int (scoutfs_kvec_length (val i))) -
                         (\<Sum>i\<leftarrow>dirty_items cac'. int (scoutfs_kvec_length (val i))))) \<and>
                   (counters_ok cac \<longrightarrow> counters_ok cac')"
    by blast
next
  assume cr: "scoutfs_item_create True cac k v = (Inr (), c1)"
  let ?ins = "\<lparr>dirty = 0, deletion = False, key = k, val = v\<rparr>"
  let ?b = "\<lparr>dirty = 0, deletion = False, key = k, val = v'\<rparr>"
  from create_sorted_result[OF s cr]
  have s1: "items_sorted (rb_node (items c1))"
    and e1: "entries c1 = map (\<lambda>e. if key e = k then e\<lparr>dirty := ITEM_DIRTY\<rparr> else e)
             (entries_put ?ins (entries cac))"
    by simp_all
  have "entry_of ?ins \<in> set (entries_put ?ins (entries cac))" by (rule entry_in_entries_put)
  then have "(entry_of ?ins)\<lparr>dirty := ITEM_DIRTY\<rparr> \<in> set (entries c1)"
    unfolding e1 by (auto simp: image_iff intro!: bexI[of _ "entry_of ?ins"])
  with live_entry_find_item[OF s1, of "(entry_of ?ins)\<lparr>dirty := ITEM_DIRTY\<rparr>"]
  obtain x where x: "find_item (items c1) k = Some x" by (auto simp: entry_of_def)
  then have kx: "key x = k" by (rule find_item_key)
  let ?c2 = "become_deletion_item c1 k"
  have d: "scoutfs_item_delete True ext c1 k = Some (Inr (), ?c2)"
    using x kx by (simp add: scoutfs_item_delete_def delete_loop.simps)
  from x have "scoutfs_item_delete_dirty c1 k = ?c2"
    using kx by (simp add: scoutfs_item_delete_dirty_def)
  with tombstone_after_delete_dirty[OF x] obtain t where
    t: "rb_find (item_at k) (rb_node (items ?c2)) = Some t"
    and tk: "key t = k" and td: "deletion t" and tv: "val t = None"
    and tb: "dirty t AND ITEM_DIRTY \<noteq> 0"
    by auto
  have s2: "items_sorted (rb_node (items ?c2))" using s1 by (rule sorted_become_deletion_item)
  have t2: "find_item (items ?c2) (key ?b) = None" by (simp add: find_item_become_deletion)
  have cb: "dirty ?b = 0" by simp
  from insert_batch_single[OF s2 cb t2] obtain c3 where
    b3: "scoutfs_item_insert_batch True ?c2 [?b] k k = (Inr (), c3, [])"
    and s3: "items_sorted (rb_node (items c3))"
    and e3: "entries c3 = entries_put ?b (entries ?c2)"
    by auto
  have t': "rb_find (item_at (key ?b)) (rb_node (items ?c2)) = Some t" using t by simp
  have b3': "scoutfs_item_insert_batch True ?c2 [?b] (key ?b) (key ?b) = (Inr (), c3, [])"
    using b3 by simp
  from insert_batch_single_counters[OF s2 cb t' td b3'] tb tk tv
  have n3: "counters c3 =
      (nr_dirty_items ?c2 - 1, dirty_key_bytes ?c2 - int (key_len k), dirty_val_bytes ?c2)"
    by (simp add: scoutfs_kvec_length_def)
  have "entry_of ?b \<in> set (entries c3)" unfolding e3 by (rule entry_in_entries_put)
  with live_entry_find_item[OF s3, of "entry_of ?b"]
  obtain y where y: "find_item (items c3) k = Some y" "entry_of y = entry_of ?b"
    by (auto simp: entry_of_def)
  from y(2) have "val y = v'" by (metis val_entry_of cached_item.select_convs(4))
  with y(1) have l: "scoutfs_item_lookup True ext c3 k cap = Some (Inr (scoutfs_kvec_memcpy cap v'), c3)"
    by (simp add: scoutfs_item_lookup_def lookup_loop.simps)
  have "snd (scoutfs_item_add_batch True [] k v') = [?b]"
    by (simp add: scoutfs_item_add_batch_def alloc_item_def)
  with d t td tv tb b3 e3 n3 l
  show "\<exists>c2 c3 t. scoutfs_item_delete True ext c1 k = Some (Inr (), c2) \<and>
              rb_find (item_at k) (rb_node (items c2)) = Some t \<and>
              deletion t \<and> val t = None \<and> dirty t AND ITEM_DIRTY \<noteq> 0 \<and>
              scoutfs_item_insert_batch True c2 (snd (scoutfs_item_add_batch True [] k v')) k k =
                (Inr (), c3, []) \<and>
              entries c3 = entries_put ?b (entries c2) \<and>
              counters c3 =
                (nr_dirty_items c2 - 1, dirty_key_bytes c2 - int (key_len k), dirty_val_bytes c2) \<and>
              scoutfs_item_lookup True ext c3 k cap = Some (Inr (scoutfs_kvec_memcpy cap v'), c3)"
    by auto
qed

text \<open>
  A cache that holds one pending deletion, and the sequence create, delete, batch, lookup
  from the empty cache.
\<close>

definition pending_deletion :: item_cache where
  "pending_deletion =
     \<lparr>items = \<lparr>rb_node = Node Leaf \<lparr>dirty = 1, deletion = True, key = [4], val = None\<rparr> Leaf,
               rb_sched = []\<rparr>,
      ranges = RB_ROOT, nr_dirty_items = 1, dirty_key_bytes = 1, dirty_val_bytes = 0\<rparr>"

theorem insert_batch_replaces_tombstone_witness:
  "(\<exists>cac'. scoutfs_item_insert_batch True pending_deletion
              [\<lparr>dirty = 0, deletion = False, key = [4], val = Some [7]\<rparr>] [1] [9] = (Inr (), cac', []) \<and>
            entries cac' = [\<lparr>dirty = 0, deletion = False, key = [4], val = Some [7]\<rparr>] \<and>
            counters pending_deletion = (1, 1, 0) \<and> counters cac' = (0, 0, 0) \<and>
            counters_ok cac') \<and>
   (\<exists>c1 c2 c3.
      scoutfs_item_create True scoutfs_item_setup [5] (Some [1]) = (Inr (), c1) \<and>
      scoutfs_item_delete True
        \<lparr>key_max = [255], manifest_read = (\<lambda>s e. Inl EIO), seg_fits_single = (\<lambda>n k v. True)\<rparr>
        c1 [5] = Some (Inr (), c2) \<and>
      rb_node (items c2) = Node Leaf \<lparr>dirty = 1, deletion = True, key = [5], val = None\<rparr> Leaf \<and>
      scoutfs_item_insert_batch True c2 (snd (scoutfs_item_add_batch True [] [5] (Some [2, 3]))) [5] [5] =
        (Inr (), c3, []) \<and>
      entries c3 = [\<lparr>dirty = 0, deletion = False, key = [5], val = Some [2, 3]\<rparr>] \<and>
      nr_dirty_items c3 = nr_dirty_items c2 - 1 \<and>
      dirty_key_bytes c3 = dirty_key_bytes c2 - 1 \<and>
      dirty_val_bytes c3 = dirty_val_bytes c2 \<and>
      scoutfs_item_lookup True
        \<lparr>key_max = [255], manifest_read = (\<lambda>s e. Inl EIO), seg_fits_single = (\<lambda>n k v. True)\<rparr>
        c3 [5] 10 = Some (Inr [2, 3], c3))"
proof -
  let ?ext = "\<lparr>key_max = [255], manifest_read = (\<lambda>s e. Inl EIO), seg_fits_single = (\<lambda>n k v. True)\<rparr>"
  let ?c1 = "\<lparr>items = \<lparr>rb_node = Node Leaf \<lparr>dirty = 1, deletion = False, key = [5], val = Some [1]\<rparr> Leaf, rb_sched = []\<rparr>,
       ranges = RB_ROOT, nr_dirty_items = 1, dirty_key_bytes = 1, dirty_val_bytes = 1\<rparr>"
  have s: "items_sorted (rb_node (items scoutfs_item_setup))"
    by (simp add: scoutfs_item_setup_def RB_ROOT_def)
  have sp: "items_sorted (rb_node (items pending_deletion))"
    by (simp add: pending_deletion_def items_sorted_def)
  have c: "scoutfs_item_create True scoutfs_item_setup [5] (Some [1]) = (Inr (), ?c1)"
    by code_simp
  have t: "rb_node (items (become_deletion_item ?c1 [5])) =
             Node Leaf \<lparr>dirty = 1, deletion = True, key = [5], val = None\<rparr> Leaf"
    by code_simp
  have d: "scoutfs_item_delete True ?ext ?c1 [5] = Some (Inr (), become_deletion_item ?c1 [5])"
    by (simp add: scoutfs_item_delete_def delete_loop.simps find_item_def walk_items_def)
  have ep: "entries pending_deletion = [\<lparr>dirty = 1, deletion = True, key = [4], val = None\<rparr>]"
    by (simp add: entries_def pending_deletion_def entry_of_def ITEM_DIRTY_def)
  have np: "counters pending_deletion = (1, 1, 0)" "counters_ok pending_deletion"
    by (simp_all add: counters_def counters_ok_def dirty_items_def pending_deletion_def ITEM_DIRTY_def
          key_len_def scoutfs_kvec_length_def)
  have first: "\<exists>cac'. scoutfs_item_insert_batch True pending_deletion
              [\<lparr>dirty = 0, deletion = False, key = [4], val = Some [7]\<rparr>] [1] [9] = (Inr (), cac', []) \<and>
            entries cac' = [\<lparr>dirty = 0, deletion = False, key = [4], val = Some [7]\<rparr>] \<and>
            counters pending_deletion = (1, 1, 0) \<and> counters cac' = (0, 0, 0) \<and>
            counters_ok cac'"
  proof -
    have p: "(\<forall>i\<in>set [\<lparr>dirty = 0, deletion = False, key = [4], val = Some [7]\<rparr>]. dirty i = 0) \<and>
             scoutfs_key_compare [1] [9] \<le> 0"
      by simp
    from insert_batch_replaces_tombstone[OF sp, THEN conjunct1, rule_format, OF p]
    obtain cac' where b: "scoutfs_item_insert_batch True pending_deletion
              [\<lparr>dirty = 0, deletion = False, key = [4], val = Some [7]\<rparr>] [1] [9] = (Inr (), cac', [])"
      and e: "entries cac' = batch_entries [\<lparr>dirty = 0, deletion = False, key = [4], val = Some [7]\<rparr>]
                (entries pending_deletion)"
      and o: "counters_ok cac'"
      using np(2) by auto
    from e have e': "entries cac' = [\<lparr>dirty = 0, deletion = False, key = [4], val = Some [7]\<rparr>]"
      by (simp add: ep entries_put_def entry_of_def)
    have "dirty_items cac' = []"
      using dirty_items_entries[of cac'] by (simp add: e')
    with o have "counters cac' = (0, 0, 0)" by (simp add: counters_ok_def counters_def)
    with b e' o np(1) show ?thesis by blast
  qed
  have second: "\<exists>c1 c2 c3.
      scoutfs_item_create True scoutfs_item_setup [5] (Some [1]) = (Inr (), c1) \<and>
      scoutfs_item_delete True ?ext c1 [5] = Some (Inr (), c2) \<and>
      rb_node (items c2) = Node Leaf \<lparr>dirty = 1, deletion = True, key = [5], val = None\<rparr> Leaf \<and>
      scoutfs_item_insert_batch True c2 (snd (scoutfs_item_add_batch True [] [5] (Some [2, 3]))) [5] [5] =
        (Inr (), c3, []) \<and>
      entries c3 = [\<lparr>dirty = 0, deletion = False, key = [5], val = Some [2, 3]\<rparr>] \<and>
      nr_dirty_items c3 = nr_dirty_items c2 - 1 \<and>
      dirty_key_bytes c3 = dirty_key_bytes c2 - 1 \<and>
      dirty_val_bytes c3 = dirty_val_bytes c2 \<and>
      scoutfs_item_lookup True ?ext c3 [5] 10 = Some (Inr [2, 3], c3)"
  proof -
    from insert_batch_replaces_tombstone[OF s, THEN conjunct2, rule_format, OF c,
        of ?ext "Some [2, 3]" 10]
    obtain c2 c3 where d2: "scoutfs_item_delete True ?ext ?c1 [5] = Some (Inr (), c2)"
      and b: "scoutfs_item_insert_batch True c2 (snd (scoutfs_item_add_batch True [] [5] (Some [2, 3]))) [5] [5] =
        (Inr (), c3, [])"
      and e: "entries c3 = entries_put \<lparr>dirty = 0, deletion = False, key = [5], val = Some [2, 3]\<rparr> (entries c2)"
      and n: "counters c3 = (nr_dirty_items c2 - 1, dirty_key_bytes c2 - int (key_len [5]), dirty_val_bytes c2)"
      and l: "scoutfs_item_lookup True ?ext c3 [5] 10 = Some (Inr (scoutfs_kvec_memcpy 10 (Some [2, 3])), c3)"
      by auto
    from d d2 have c2: "c2 = become_deletion_item ?c1 [5]" by simp
    with t have t2: "rb_node (items c2) = Node Leaf \<lparr>dirty = 1, deletion = True, key = [5], val = None\<rparr> Leaf"
      by simp
    then have "entries c2 = [\<lparr>dirty = 1, deletion = True, key = [5], val = None\<rparr>]"
      by (simp add: entries_def entry_of_def ITEM_DIRTY_def)
    with e have e': "entries c3 = [\<lparr>dirty = 0, deletion = False, key = [5], val = Some [2, 3]\<rparr>]"
      by (simp add: entries_put_def entry_of_def)
    from n have n': "nr_dirty_items c3 = nr_dirty_items c2 - 1" "dirty_key_bytes c3 = dirty_key_bytes c2 - 1"
      "dirty_val_bytes c3 = dirty_val_bytes c2"
      by (simp_all add: counters_def key_len_def)
    from l have l': "scoutfs_item_lookup True ?ext c3 [5] 10 = Some (Inr [2, 3], c3)"
      by (simp add: scoutfs_kvec_memcpy_def)
    from c d2 t2 b e' n' l' show ?thesis by blast
  qed
  from first second show ?thesis by blast
qed

lemma key_compare_le: "scoutfs_key_compare a b \<le> 0 \<longleftrightarrow> a \<le> b"
  using key_compare_gt[of a b] by auto









text \<open>
  The states that the tree operations of item.c can reach from the empty cache. An item
  is inserted with no dirty bit set, which is how \<^verbatim>\<open>alloc_item\<close> makes the items that the
  callers of \<^verbatim>\<open>insert_item\<close> pass. The rotations of the kernel's rebalancing are whatever the schedule says,
  and a single rotation with the rotate callback is a step as well. The value and the
  deletion flag change as \<^verbatim>\<open>scoutfs_item_update\<close> and \<^verbatim>\<open>become_deletion_item\<close> change
  them; the range tree may change in any way.
\<close>

inductive reachable :: "item_cache \<Rightarrow> bool" where
  reach_setup: "reachable scoutfs_item_setup"
| reach_schedule: "reachable c \<Longrightarrow> reachable (c\<lparr>items := (items c)\<lparr>rb_sched := s\<rparr>\<rparr>)"
| reach_rotate: "reachable c \<Longrightarrow>
     reachable (c\<lparr>items := (items c)\<lparr>rb_node :=
                  rb_rotate_at scoutfs_item_rb_cb p d (rb_node (items c))\<rparr>\<rparr>)"
| reach_insert: "reachable c \<Longrightarrow> dirty ins = 0 \<Longrightarrow> insert_item c ins = (ret, c') \<Longrightarrow> reachable c'"
| reach_erase: "reachable c \<Longrightarrow> reachable (erase_item c k)"
| reach_mark: "reachable c \<Longrightarrow> reachable (mark_item_dirty c k)"
| reach_clear: "reachable c \<Longrightarrow> reachable (clear_item_dirty c k)"
| reach_set_val: "reachable c \<Longrightarrow> reachable (set_item_val c k v)"
| reach_deletion: "reachable c \<Longrightarrow> reachable (become_deletion_item c k)"
| reach_ranges: "reachable c \<Longrightarrow> reachable (c\<lparr>ranges := r\<rparr>)"

lemma reachable_dirty_consistent: "reachable c \<Longrightarrow> dirty_consistent (rb_node (items c))"
proof (induction rule: reachable.induct)
  case reach_setup
  then show ?case by (simp add: scoutfs_item_setup_def RB_ROOT_def)
next
  case (reach_schedule c s)
  then show ?case by simp
next
  case (reach_rotate c p d)
  then show ?case by (simp add: dirty_consistent_rotate_at)
next
  case (reach_insert c ins ret c')
  from dirty_consistent_insert_item[OF reach_insert(2) reach_insert(4), unfolded reach_insert(3)]
  show ?case by simp
next
  case (reach_erase c k)
  then show ?case by (simp add: dirty_consistent_erase_item)
next
  case (reach_mark c k)
  then show ?case by (simp add: dirty_consistent_mark_item_dirty)
next
  case (reach_clear c k)
  then show ?case by (simp add: dirty_consistent_clear_item_dirty)
next
  case (reach_set_val c k v)
  then show ?case by (simp add: dirty_consistent_set_item_val)
next
  case (reach_deletion c k)
  then show ?case by (simp add: dirty_consistent_become_deletion_item)
next
  case (reach_ranges c r)
  then show ?case by simp
qed

text \<open>The public operations stay within these states.\<close>

lemma alloc_item_clean: "alloc_item mem k v = Some item \<Longrightarrow> dirty item = 0"
  by (auto simp: alloc_item_def split: if_splits)

lemma reachable_insert_item: "reachable c \<Longrightarrow> dirty ins = 0 \<Longrightarrow> reachable (snd (insert_item c ins))"
  by (rule reach_insert[where ret = "fst (insert_item c ins)"]) simp_all

lemma reachable_create: "reachable c \<Longrightarrow> reachable (snd (scoutfs_item_create mem c k v))"
proof -
  assume r: "reachable c"
  show ?thesis
  proof (cases "alloc_item mem k v")
    case None
    then show ?thesis using r by (simp add: scoutfs_item_create_def)
  next
    case (Some item)
    from reachable_insert_item[OF r alloc_item_clean[OF Some]]
    have i: "reachable (snd (insert_item c item))" .
    show ?thesis
    proof (cases "insert_item c item")
      case (Pair ret c')
      with i have c': "reachable c'" by simp
      show ?thesis
        using Some Pair c' reach_mark[OF c']
        by (cases ret) (simp_all add: scoutfs_item_create_def)
    qed
  qed
qed

lemma reachable_insert_batch_items:
  "reachable c \<Longrightarrow> \<forall>i\<in>set list. dirty i = 0 \<Longrightarrow> reachable (fst (insert_batch_items c list kept))"
proof (induction list arbitrary: c kept)
  case Nil
  then show ?case by simp
next
  case (Cons item rest)
  from Cons.prems have d: "dirty item = 0" and ds: "\<forall>i\<in>set rest. dirty i = 0" by simp_all
  from reachable_insert_item[OF Cons.prems(1) d]
  have i: "reachable (snd (insert_item c item))" .
  show ?case
  proof (cases "insert_item c item")
    case (Pair ret c')
    with i have c': "reachable c'" by simp
    show ?thesis using Pair Cons.IH[OF c' ds] by (cases ret) simp_all
  qed
qed

lemma reachable_insert_batch:
  assumes "reachable c" "\<forall>i\<in>set list. dirty i = 0"
  shows "reachable (fst (snd (scoutfs_item_insert_batch mem c list s e)))"
proof -
  let ?c1 = "c\<lparr>ranges := insert_range (ranges c) \<lparr>range_start = s, range_end = e\<rparr>\<rparr>"
  have "reachable ?c1" by (rule reach_ranges[OF assms(1)])
  from reachable_insert_batch_items[OF this assms(2), of "[]"] assms(1)
  show ?thesis
    by (auto simp: scoutfs_item_insert_batch_def Let_def split: prod.splits)
qed

lemma reachable_delete_dirty: "reachable c \<Longrightarrow> reachable (scoutfs_item_delete_dirty c k)"
  by (simp add: scoutfs_item_delete_dirty_def reach_deletion split: option.splits)

text \<open>
  C3. In every reachable state, at every node of the item tree, the left summary bit is
  set exactly when some node of the left subtree has one of its three dirty bits set, and
  the right summary bit exactly when some node of the right subtree has.
\<close>

theorem summary_bits_invariant: "reachable c \<Longrightarrow> summary_ok (rb_node (items c))"
  by (rule summary_ok_consistent) (rule reachable_dirty_consistent)

text \<open>
  Two creations and a right rotation at the root: the item with key 3 is the root, with
  its own bit and the right summary bit, above the item with key 5, with its own bit.
\<close>

definition rotated_cache :: item_cache where
  "rotated_cache =
     (let c = snd (scoutfs_item_create True
                     (snd (scoutfs_item_create True scoutfs_item_setup [5] None)) [3] None)
      in c\<lparr>items := (items c)\<lparr>rb_node :=
                         rb_rotate_at scoutfs_item_rb_cb [] RB_RIGHT (rb_node (items c))\<rparr>\<rparr>)"

theorem summary_bits_invariant_witness:
  "reachable rotated_cache \<and> summary_ok (rb_node (items rotated_cache)) \<and>
   rb_node (items rotated_cache) =
     Node Leaf \<lparr>dirty = 5, deletion = False, key = [3], val = None\<rparr>
       (Node Leaf \<lparr>dirty = 1, deletion = False, key = [5], val = None\<rparr> Leaf)"
proof -
  have r: "reachable rotated_cache"
    unfolding rotated_cache_def Let_def
    by (intro reach_rotate reachable_create reach_setup)
  have t: "rb_node (items rotated_cache) =
     Node Leaf \<lparr>dirty = 5, deletion = False, key = [3], val = None\<rparr>
       (Node Leaf \<lparr>dirty = 1, deletion = False, key = [5], val = None\<rparr> Leaf)"
    by code_simp
  from summary_bits_invariant[OF r] r t show ?thesis by simp
qed

section \<open>The range tree holds separate ranges\<close>

text \<open>
  The invariant of the range tree, in the words of the spec: every range is non-empty,
  and in key order every range ends before the next one starts.
\<close>

definition ranges_ok :: "cached_range tree \<Rightarrow> bool" where
  "ranges_ok t \<longleftrightarrow>
     sorted_wrt (\<lambda>a b. range_end a < range_start b) (inorder t) \<and>
     (\<forall>r\<in>set_tree t. range_start r \<le> range_end r)"

text \<open>The keys that a range, and a tree of ranges, cover.\<close>

definition range_covers :: "cached_range \<Rightarrow> key_buf \<Rightarrow> bool" where
  "range_covers r k \<longleftrightarrow> scoutfs_key_compare_ranges k k (range_start r) (range_end r) = 0"

definition ranges_cover :: "cached_range tree \<Rightarrow> key_buf \<Rightarrow> bool" where
  "ranges_cover t k \<longleftrightarrow> (\<exists>r\<in>set_tree t. range_covers r k)"

lemma range_covers_iff: "range_covers r k \<longleftrightarrow> range_start r \<le> k \<and> k \<le> range_end r"
  by (auto simp: range_covers_def scoutfs_key_compare_ranges_def key_compare_lt key_compare_gt)

lemma range_at_less: "range_at ins r < 0 \<longleftrightarrow> range_end ins < range_start r"
  by (simp add: range_at_def scoutfs_key_compare_ranges_def key_compare_lt)

lemma range_at_greater:
  "range_at ins r > 0 \<longleftrightarrow> \<not> range_end ins < range_start r \<and> range_end r < range_start ins"
  by (simp add: range_at_def scoutfs_key_compare_ranges_def key_compare_lt key_compare_gt)

lemma range_at_zero:
  "range_at ins r = 0 \<longleftrightarrow> range_start r \<le> range_end ins \<and> range_start ins \<le> range_end r"
  by (auto simp: range_at_def scoutfs_key_compare_ranges_def key_compare_lt key_compare_gt)

lemma ranges_ok_Leaf [simp]: "ranges_ok Leaf"
  by (simp add: ranges_ok_def)

lemma ranges_ok_Node:
  "ranges_ok (Node l x r) \<longleftrightarrow>
     ranges_ok l \<and> ranges_ok r \<and> range_start x \<le> range_end x \<and>
     (\<forall>a\<in>set_tree l. range_end a < range_start x) \<and>
     (\<forall>b\<in>set_tree r. range_end x < range_start b)"
  by (fastforce simp: ranges_ok_def sorted_wrt_append)

lemma insert_range_descend_link:
  "insert_range_descend ins t = (t', None) \<Longrightarrow> set_tree t' = insert ins (set_tree t)"
  by (induction t arbitrary: t') (auto simp: Let_def split: if_splits prod.splits)

lemma ranges_ok_descend_link:
  "insert_range_descend ins t = (t', None) \<Longrightarrow> ranges_ok t \<Longrightarrow>
   range_start ins \<le> range_end ins \<Longrightarrow> ranges_ok t'"
proof (induction t arbitrary: t')
  case Leaf
  then show ?case by (auto simp: ranges_ok_Node)
next
  case (Node l x r)
  show ?case
  proof (cases "range_at ins x < 0")
    case True
    with Node.prems(1) obtain l' where l': "insert_range_descend ins l = (l', None)"
      and t': "t' = Node l' x r"
      by (auto simp: Let_def split: prod.splits)
    from Node.prems(2) have "ranges_ok l" by (simp add: ranges_ok_Node)
    from Node.IH(1)[OF l' this Node.prems(3)] have "ranges_ok l'" .
    moreover have "set_tree l' = insert ins (set_tree l)" by (rule insert_range_descend_link[OF l'])
    ultimately show ?thesis
      using Node.prems(2) True t' by (auto simp: ranges_ok_Node range_at_less)
  next
    case False
    with Node.prems(1) have g: "range_at ins x > 0"
      by (auto simp: Let_def split: prod.splits if_splits)
    with False Node.prems(1) obtain r' where r': "insert_range_descend ins r = (r', None)"
      and t': "t' = Node l x r'"
      by (auto simp: Let_def split: prod.splits)
    from Node.prems(2) have "ranges_ok r" by (simp add: ranges_ok_Node)
    from Node.IH(2)[OF r' this Node.prems(3)] have "ranges_ok r'" .
    moreover have "set_tree r' = insert ins (set_tree r)" by (rule insert_range_descend_link[OF r'])
    ultimately show ?thesis
      using Node.prems(2) g t' by (auto simp: ranges_ok_Node range_at_greater)
  qed
qed

lemma rb_find_mem: "rb_find loc t = Some y \<Longrightarrow> y \<in> set_tree t"
  by (induction t) (auto split: if_splits)

lemma inorder_rb_erase:
  assumes "rb_find loc (rb_node root) = Some y"
  shows "\<exists>xs ys. inorder (rb_node root) = xs @ y # ys \<and>
                 inorder (rb_node (rb_erase loc root)) = xs @ ys"
proof -
  from unlink_split[of "\<lambda>x. x" "\<lambda>l x r. x", OF _ assms]
  obtain xs ys where s: "inorder (rb_node root) = xs @ y # ys"
    and u: "inorder (fst (rb_unlink (\<lambda>l x r. x) loc (rb_node root))) = xs @ ys"
    by auto
  have "inorder (rb_node (rb_erase loc root)) =
        inorder (fst (rb_unlink (\<lambda>l x r. x) loc (rb_node root)))"
    using inorder_rebalance[of "\<lambda>x. x" "\<lambda>l x r. x"
            "root\<lparr>rb_node := fst (rb_unlink (\<lambda>l x r. x) loc (rb_node root))\<rparr>"]
    by (simp add: rb_erase_def rb_erase_augmented_def)
  with s u show ?thesis by auto
qed

lemma ranges_ok_rb_erase:
  assumes "rb_find loc (rb_node root) = Some y" "ranges_ok (rb_node root)"
  shows "ranges_ok (rb_node (rb_erase loc root))"
proof -
  from inorder_rb_erase[OF assms(1)] obtain xs ys where
    s: "inorder (rb_node root) = xs @ y # ys"
    and e: "inorder (rb_node (rb_erase loc root)) = xs @ ys" by auto
  have "set_tree (rb_node (rb_erase loc root)) \<subseteq> set_tree (rb_node root)"
    using s e set_inorder[of "rb_node root"] set_inorder[of "rb_node (rb_erase loc root)"]
    by auto
  then show ?thesis
    using assms(2) s e by (auto simp: ranges_ok_def sorted_wrt_append)
qed

lemma ranges_ok_rb_insert_color: "ranges_ok (rb_node (rb_insert_color root)) = ranges_ok (rb_node root)"
proof -
  have "inorder (rb_node (rb_insert_color root)) = inorder (rb_node root)"
    using inorder_rebalance[of "\<lambda>x. x" "\<lambda>l x r. x" root]
    by (simp add: rb_insert_color_def rb_insert_augmented_def)
  then show ?thesis
    using set_inorder[of "rb_node root"] set_inorder[of "rb_node (rb_insert_color root)"]
    by (simp add: ranges_ok_def del: set_inorder)
qed

lemma key_compare_ge: "0 \<le> scoutfs_key_compare a b \<longleftrightarrow> b \<le> a"
  using key_compare_lt[of a b] by auto

lemma ranges_ok_insert_range:
  "ranges_ok (rb_node root) \<Longrightarrow> range_start ins \<le> range_end ins \<Longrightarrow>
   ranges_ok (rb_node (insert_range root ins))"
proof (induction root ins rule: insert_range.induct)
  case (1 root ins)
  obtain t hit where d: "insert_range_descend ins (rb_node root) = (t, hit)" by fastforce
  show ?case
  proof (cases hit)
    case None
    from ranges_ok_descend_link[OF d[unfolded None] 1(2) 1(3)] show ?thesis
      using d None by (simp add: insert_range.simps[of root ins] ranges_ok_rb_insert_color)
  next
    case (Some rng)
    from insert_range_descend_hit[OF d[unfolded Some]]
    have f: "rb_find (range_at ins) (rb_node root) = Some rng" and z: "range_at ins rng = 0"
      by simp_all
    from rb_find_mem[OF f] 1(2) have ne: "range_start rng \<le> range_end rng"
      by (simp add: ranges_ok_def)
    let ?sc = "scoutfs_key_compare (range_start ins) (range_start rng)"
    let ?ec = "scoutfs_key_compare (range_end ins) (range_end rng)"
    show ?thesis
    proof (cases "?sc \<ge> 0 \<and> ?ec \<le> 0")
      case True
      then show ?thesis
        using d Some 1(2) by (simp add: insert_range.simps[of root ins])
    next
      case False
      let ?ins = "if ?sc < 0 \<and> ?ec < 0 then ins\<lparr>range_end := range_end rng\<rparr>
                  else if ?sc > 0 \<and> ?ec > 0 then ins\<lparr>range_start := range_start rng\<rparr>
                  else ins"
      have w: "range_start ?ins \<le> range_end ?ins"
        using ne 1(3) by (auto simp: key_compare_lt key_compare_gt)
      have e: "ranges_ok (rb_node (rb_erase (range_at ins) root))"
        by (rule ranges_ok_rb_erase[OF f 1(2)])
      from 1(1)[OF d[symmetric] Some refl refl False e w]
      show ?thesis
        using d Some False by (auto simp: insert_range.simps[of root ins] Let_def)
    qed
  qed
qed

lemma ranges_cover_rb_erase:
  assumes "rb_find loc (rb_node root) = Some y"
  shows "ranges_cover (rb_node root) k \<longleftrightarrow>
         range_covers y k \<or> ranges_cover (rb_node (rb_erase loc root)) k"
proof -
  from inorder_rb_erase[OF assms] obtain xs ys where
    s: "inorder (rb_node root) = xs @ y # ys"
    and e: "inorder (rb_node (rb_erase loc root)) = xs @ ys" by auto
  have "set_tree (rb_node root) = insert y (set_tree (rb_node (rb_erase loc root)))"
    using s e set_inorder[of "rb_node root"] set_inorder[of "rb_node (rb_erase loc root)"]
    by auto
  then show ?thesis by (auto simp: ranges_cover_def)
qed

lemma ranges_cover_insert_range:
  "ranges_cover (rb_node (insert_range root ins)) k \<longleftrightarrow>
   ranges_cover (rb_node root) k \<or> range_covers ins k"
proof (induction root ins rule: insert_range.induct)
  case (1 root ins)
  obtain t hit where d: "insert_range_descend ins (rb_node root) = (t, hit)" by fastforce
  show ?case
  proof (cases hit)
    case None
    have "set_tree (rb_node (rb_insert_color (root\<lparr>rb_node := t\<rparr>))) = set_tree t"
      using inorder_rebalance[of "\<lambda>x. x" "\<lambda>l x r. x" "root\<lparr>rb_node := t\<rparr>"]
        set_inorder[of t] set_inorder[of "rb_node (rb_insert_color (root\<lparr>rb_node := t\<rparr>))"]
      by (simp add: rb_insert_color_def rb_insert_augmented_def del: set_inorder)
    with insert_range_descend_link[OF d[unfolded None]] show ?thesis
      using d None by (auto simp: insert_range.simps[of root ins] ranges_cover_def)
  next
    case (Some rng)
    from insert_range_descend_hit[OF d[unfolded Some]]
    have f: "rb_find (range_at ins) (rb_node root) = Some rng" and z: "range_at ins rng = 0"
      by simp_all
    note c = ranges_cover_rb_erase[OF f, of k]
    let ?sc = "scoutfs_key_compare (range_start ins) (range_start rng)"
    let ?ec = "scoutfs_key_compare (range_end ins) (range_end rng)"
    show ?thesis
    proof (cases "?sc \<ge> 0 \<and> ?ec \<le> 0")
      case True
      then have "range_covers ins k \<Longrightarrow> range_covers rng k"
        by (auto simp: range_covers_iff key_compare_le key_compare_ge)
      then show ?thesis
        using d Some True c by (auto simp: insert_range.simps[of root ins])
    next
      case False
      let ?ins = "if ?sc < 0 \<and> ?ec < 0 then ins\<lparr>range_end := range_end rng\<rparr>
                  else if ?sc > 0 \<and> ?ec > 0 then ins\<lparr>range_start := range_start rng\<rparr>
                  else ins"
      have m: "range_covers ?ins k \<longleftrightarrow> range_covers ins k \<or> range_covers rng k"
        using z False
        by (auto simp: range_covers_iff range_at_zero key_compare_lt key_compare_gt
              key_compare_le key_compare_ge)
      from 1[OF d[symmetric] Some refl refl False]
      have "ranges_cover (rb_node (insert_range (rb_erase (range_at ins) root) ?ins)) k \<longleftrightarrow>
            ranges_cover (rb_node (rb_erase (range_at ins) root)) k \<or> range_covers ?ins k" .
      with m c show ?thesis
        using d Some False by (auto simp: insert_range.simps[of root ins] Let_def)
    qed
  qed
qed

lemma ranges_ok_foldl:
  "ranges_ok (rb_node root) \<Longrightarrow> \<forall>r\<in>set rs. range_start r \<le> range_end r \<Longrightarrow>
   ranges_ok (rb_node (foldl insert_range root rs))"
  by (induction rs arbitrary: root) (simp_all add: ranges_ok_insert_range)

lemma ranges_cover_foldl:
  "ranges_cover (rb_node (foldl insert_range root rs)) k \<longleftrightarrow>
   ranges_cover (rb_node root) k \<or> (\<exists>r\<in>set rs. range_covers r k)"
  by (induction rs arbitrary: root) (auto simp: ranges_cover_insert_range)

text \<open>An insertion that lies within a range of the tree leaves the tree as it is.\<close>

lemma insert_range_descend_within:
  "ranges_ok t \<Longrightarrow> r \<in> set_tree t \<Longrightarrow> range_start r \<le> range_start ins \<Longrightarrow>
   range_start ins \<le> range_end ins \<Longrightarrow> range_end ins \<le> range_end r \<Longrightarrow>
   insert_range_descend ins t = (t, Some r)"
proof (induction t)
  case Leaf
  then show ?case by simp
next
  case (Node l x rt)
  from Node.prems(2) consider "r = x" | "r \<in> set_tree l" | "r \<in> set_tree rt" by auto
  then show ?case
  proof cases
    case 1
    with Node.prems have "range_at ins x = 0" by (auto simp: range_at_zero)
    with 1 show ?thesis by simp
  next
    case 2
    with Node.prems(1) have "range_end r < range_start x" and ok: "ranges_ok l"
      by (simp_all add: ranges_ok_Node)
    with Node.prems(5) have "range_at ins x < 0" by (simp add: range_at_less)
    with Node.IH(1)[OF ok 2 Node.prems(3,4,5)] show ?thesis by simp
  next
    case 3
    with Node.prems(1) have "range_end x < range_start r" and ok: "ranges_ok rt"
      and "range_start x \<le> range_end x"
      by (simp_all add: ranges_ok_Node)
    with Node.prems(3,4) have "range_at ins x > 0" by (auto simp: range_at_greater)
    with Node.IH(2)[OF ok 3 Node.prems(3,4,5)] show ?thesis by (simp add: Let_def)
  qed
qed

lemma insert_range_within:
  assumes "ranges_ok (rb_node root)" "r \<in> set_tree (rb_node root)"
    "range_start r \<le> range_start ins" "range_start ins \<le> range_end ins"
    "range_end ins \<le> range_end r"
  shows "insert_range root ins = root"
  using insert_range_descend_within[OF assms] assms(3,5)
  by (simp add: insert_range.simps[of root ins] key_compare_le key_compare_ge)

text \<open>
  C4. After any sequence of insertions of non-empty ranges into the empty range tree,
  whatever rotations the rebalancing performs, every range of the tree lies before every
  later one in key order without overlapping or touching it, and the tree covers exactly
  the keys that the inserted ranges cover.
\<close>

theorem inserted_ranges_separate:
  assumes "\<forall>r\<in>set rs. scoutfs_key_compare (range_start r) (range_end r) \<le> 0"
  shows "sorted_wrt (\<lambda>a b. range_at a b < 0)
           (inorder (rb_node (foldl insert_range (RB_ROOT\<lparr>rb_sched := s\<rparr>) rs))) \<and>
         (\<forall>k. ranges_cover (rb_node (foldl insert_range (RB_ROOT\<lparr>rb_sched := s\<rparr>) rs)) k \<longleftrightarrow>
              (\<exists>r\<in>set rs. range_covers r k))"
proof -
  have "ranges_ok (rb_node (RB_ROOT\<lparr>rb_sched := s\<rparr> :: cached_range rb_root))"
    by (simp add: RB_ROOT_def)
  from ranges_ok_foldl[OF this, of rs] assms
  have "ranges_ok (rb_node (foldl insert_range (RB_ROOT\<lparr>rb_sched := s\<rparr>) rs))"
    by (simp add: key_compare_le)
  moreover have "\<not> ranges_cover (rb_node (RB_ROOT\<lparr>rb_sched := s\<rparr> :: cached_range rb_root)) k" for k
    by (simp add: RB_ROOT_def ranges_cover_def)
  ultimately show ?thesis
    by (simp add: ranges_ok_def range_at_less ranges_cover_foldl)
qed

text \<open>
  The ranges 1..3 and 5..7 are joined by 3..5, and 9..9 stays apart; the rebalancing
  rotates the root to the left after the second insertion.
\<close>

definition four_ranges :: "cached_range list" where
  "four_ranges =
     [\<lparr>range_start = [1], range_end = [3]\<rparr>, \<lparr>range_start = [5], range_end = [7]\<rparr>,
      \<lparr>range_start = [9], range_end = [9]\<rparr>, \<lparr>range_start = [3], range_end = [5]\<rparr>]"

theorem inserted_ranges_separate_witness:
  "inorder (rb_node (foldl insert_range (RB_ROOT\<lparr>rb_sched := [[], [([], RB_LEFT)]]\<rparr>) four_ranges)) =
     [\<lparr>range_start = [1], range_end = [7]\<rparr>, \<lparr>range_start = [9], range_end = [9]\<rparr>] \<and>
   sorted_wrt (\<lambda>a b. range_at a b < 0)
     (inorder (rb_node (foldl insert_range (RB_ROOT\<lparr>rb_sched := [[], [([], RB_LEFT)]]\<rparr>) four_ranges))) \<and>
   (\<forall>k. ranges_cover
          (rb_node (foldl insert_range (RB_ROOT\<lparr>rb_sched := [[], [([], RB_LEFT)]]\<rparr>) four_ranges)) k \<longleftrightarrow>
        (\<exists>r\<in>set four_ranges. range_covers r k))"
proof -
  have p: "\<forall>r\<in>set four_ranges. scoutfs_key_compare (range_start r) (range_end r) \<le> 0"
    by (simp add: four_ranges_def)
  have e: "inorder (rb_node (foldl insert_range (RB_ROOT\<lparr>rb_sched := [[], [([], RB_LEFT)]]\<rparr>) four_ranges)) =
     [\<lparr>range_start = [1], range_end = [7]\<rparr>, \<lparr>range_start = [9], range_end = [9]\<rparr>]"
    by code_simp
  from inserted_ranges_separate[OF p, of "[[], [([], RB_LEFT)]]"] e show ?thesis by blast
qed

section \<open>The walk over the dirty items\<close>

definition hd_opt :: "'a list \<Rightarrow> 'a option" where
  "hd_opt xs = (case xs of [] \<Rightarrow> None | x # rest \<Rightarrow> Some x)"

lemma hd_opt_simps [simp]: "hd_opt [] = None" "hd_opt (x # xs) = Some x"
  by (simp_all add: hd_opt_def)

lemma hd_opt_append: "hd_opt (xs @ ys) = (if xs = [] then hd_opt ys else hd_opt xs)"
  by (cases xs) simp_all

abbreviation own_dirty :: "cached_item \<Rightarrow> bool" where
  "own_dirty i \<equiv> dirty i AND ITEM_DIRTY \<noteq> 0"

lemma has_dirty_item_filter: "has_dirty_item t \<longleftrightarrow> filter own_dirty (inorder t) \<noteq> []"
  by (auto simp: has_dirty_item_def filter_empty_conv)

lemma consistent_summary_bits:
  assumes "dirty_consistent (Node l x r)"
  shows "(dirty x AND LEFT_DIRTY \<noteq> 0 \<longleftrightarrow> has_dirty_item l) \<and>
         (dirty x AND RIGHT_DIRTY \<noteq> 0 \<longleftrightarrow> has_dirty_item r)"
proof -
  from assms have d: "dirty x = compute_item_dirty l x r"
    and l: "dirty_consistent l" and r: "dirty_consistent r" by simp_all
  have "dirty x AND LEFT_DIRTY = (if tree_dirty l then LEFT_DIRTY else 0)"
    unfolding d by (simp only: compute_left_bit node_dirty_bit_tree_dirty)
  moreover have "dirty x AND RIGHT_DIRTY = (if tree_dirty r then RIGHT_DIRTY else 0)"
    unfolding d by (simp only: compute_right_bit node_dirty_bit_tree_dirty)
  moreover have "tree_dirty l = has_dirty_item l" "tree_dirty r = has_dirty_item r"
    using l r by (simp_all only: tree_dirty_has_dirty_item)
  ultimately show ?thesis by (simp add: LEFT_DIRTY_def RIGHT_DIRTY_def)
qed

lemma first_dirty_hd:
  "dirty_consistent t \<Longrightarrow> first_dirty t = hd_opt (filter own_dirty (inorder t))"
proof (induction t)
  case Leaf
  then show ?case by simp
next
  case (Node l x r)
  from Node.prems have cl: "dirty_consistent l" and cr: "dirty_consistent r" by simp_all
  note b = consistent_summary_bits[OF Node.prems]
  note il = Node.IH(1)[OF cl] and ir = Node.IH(2)[OF cr]
  show ?case
  proof (cases "has_dirty_item l")
    case True
    then have "filter own_dirty (inorder l) \<noteq> []" by (simp add: has_dirty_item_filter)
    then have "hd_opt (filter own_dirty (inorder (Node l x r))) = hd_opt (filter own_dirty (inorder l))"
      by (simp add: hd_opt_append)
    with True b il show ?thesis by simp
  next
    case False
    then have e: "filter own_dirty (inorder l) = []" by (simp add: has_dirty_item_filter)
    show ?thesis
    proof (cases "own_dirty x")
      case True
      with False b e show ?thesis by simp
    next
      case nx: False
      show ?thesis
      proof (cases "has_dirty_item r")
        case True
        with False nx b e ir show ?thesis by simp
      next
        case nr: False
        then have "filter own_dirty (inorder r) = []" by (simp add: has_dirty_item_filter)
        with False nx nr b e show ?thesis by simp
      qed
    qed
  qed
qed

lemma next_dirty_from_after:
  "items_sorted t \<Longrightarrow> dirty_consistent t \<Longrightarrow> k \<in> key ` set_tree t \<Longrightarrow>
   next_dirty_from (item_at k) t =
     map_option Some (hd_opt (filter own_dirty (filter (\<lambda>i. k < key i) (inorder t))))"
proof (induction t)
  case Leaf
  then show ?case by simp
next
  case (Node l y r)
  from Node.prems(1) have sl: "items_sorted l" and sr: "items_sorted r"
    and ll: "\<forall>a\<in>set (inorder l). key a < key y" and rr: "\<forall>b\<in>set (inorder r). key y < key b"
    by (simp_all add: items_sorted_Node)
  from Node.prems(2) have cl: "dirty_consistent l" and cr: "dirty_consistent r" by simp_all
  note b = consistent_summary_bits[OF Node.prems(2)]
  have fr: "first_dirty r = hd_opt (filter own_dirty (inorder r))" by (rule first_dirty_hd[OF cr])
  have hr: "has_dirty_item r \<longleftrightarrow> filter own_dirty (inorder r) \<noteq> []" by (rule has_dirty_item_filter)
  consider "k < key y" | "key y < k" | "k = key y" using less_linear by blast
  then show ?case
  proof cases
    case 1
    then have loc: "item_at k y < 0" by (simp add: item_at_less)
    from 1 rr have "\<forall>b\<in>set (inorder r). k < key b" by (meson less_trans)
    then have ar: "filter (\<lambda>i. k < key i) (inorder r) = inorder r" by (simp add: filter_True)
    from 1 rr Node.prems(3) have kl: "k \<in> key ` set_tree l" by auto
    let ?F = "filter own_dirty (filter (\<lambda>i. k < key i) (inorder l))"
    have e: "filter own_dirty (filter (\<lambda>i. k < key i) (inorder (Node l y r))) =
             ?F @ filter own_dirty (y # inorder r)"
      using 1 ar by simp
    note ih = Node.IH(1)[OF sl cl kl]
    show ?thesis
    proof (cases "?F = []")
      case False
      then obtain d rest where "?F = d # rest" by (cases ?F) auto
      with ih loc e show ?thesis by simp
    next
      case True
      with ih have n: "next_dirty_from (item_at k) l = None" by simp
      show ?thesis
      proof (cases "own_dirty y")
        case oy: True
        with n loc e True show ?thesis by simp
      next
        case ny: False
        show ?thesis
        proof (cases "has_dirty_item r")
          case hd: True
          with hr obtain d rest where "filter own_dirty (inorder r) = d # rest"
            by (cases "filter own_dirty (inorder r)") auto
          with n loc e True ny hd b fr show ?thesis by simp
        next
          case nd: False
          with hr have "filter own_dirty (inorder r) = []" by simp
          with n loc e True ny nd b show ?thesis by simp
        qed
      qed
    qed
  next
    case 2
    then have loc: "\<not> item_at k y < 0" "item_at k y > 0"
      by (simp_all add: item_at_less item_at_greater)
    from 2 ll have "\<forall>a\<in>set (inorder l). \<not> k < key a" by (meson less_trans less_asym)
    then have al: "filter (\<lambda>i. k < key i) (inorder l) = []" by (simp add: filter_False)
    from 2 ll Node.prems(3) have kr: "k \<in> key ` set_tree r" by auto
    from 2 have ny: "\<not> k < key y" by (simp add: less_asym)
    have e: "filter own_dirty (filter (\<lambda>i. k < key i) (inorder (Node l y r))) =
             filter own_dirty (filter (\<lambda>i. k < key i) (inorder r))"
      using ny al by simp
    from Node.IH(2)[OF sr cr kr] loc e show ?thesis by simp
  next
    case 3
    then have loc: "\<not> item_at k y < 0" "\<not> item_at k y > 0"
      by (simp_all add: item_at_less item_at_greater)
    from 3 ll have "\<forall>a\<in>set (inorder l). \<not> k < key a" by (meson less_asym)
    then have al: "filter (\<lambda>i. k < key i) (inorder l) = []" by (simp add: filter_False)
    from 3 rr have "\<forall>b\<in>set (inorder r). k < key b" by simp
    then have ar: "filter (\<lambda>i. k < key i) (inorder r) = inorder r" by (simp add: filter_True)
    have e: "filter own_dirty (filter (\<lambda>i. k < key i) (inorder (Node l y r))) =
             filter own_dirty (inorder r)"
      using 3 al ar by simp
    show ?thesis
    proof (cases "has_dirty_item r")
      case hd: True
      with hr obtain d rest where "filter own_dirty (inorder r) = d # rest"
        by (cases "filter own_dirty (inorder r)") auto
      with loc e hd b fr show ?thesis by simp
    next
      case nd: False
      with hr have "filter own_dirty (inorder r) = []" by simp
      with loc e nd b show ?thesis by simp
    qed
  qed
qed

lemma next_dirty_after:
  assumes "items_sorted t" "dirty_consistent t" "k \<in> key ` set_tree t"
  shows "next_dirty (item_at k) t = hd_opt (filter own_dirty (filter (\<lambda>i. k < key i) (inorder t)))"
  using next_dirty_from_after[OF assms]
  by (cases "hd_opt (filter own_dirty (filter (\<lambda>i. k < key i) (inorder t)))")
     (simp_all add: next_dirty_def)

text \<open>In a list with ascending keys, the items after an item are those with greater keys.\<close>

lemma filter_greater_sorted:
  assumes "sorted_wrt (<) (map key (pre @ d # rest))"
  shows "filter (\<lambda>i. key d < key i) (pre @ d # rest) = rest"
proof -
  from assms have p: "\<forall>a\<in>set pre. key a < key d" and r: "\<forall>b\<in>set rest. key d < key b"
    by (auto simp: sorted_wrt_append)
  from p have "\<forall>a\<in>set pre. \<not> key d < key a" by (meson less_asym)
  then have "filter (\<lambda>i. key d < key i) pre = []" by (simp add: filter_False)
  moreover from r have "filter (\<lambda>i. key d < key i) rest = rest" by (simp add: filter_True)
  ultimately show ?thesis by simp
qed

lemma next_dirty_in_list:
  assumes s: "items_sorted t" and c: "dirty_consistent t"
    and d: "filter own_dirty (inorder t) = pre @ d # rest"
  shows "next_dirty (item_at (key d)) t = hd_opt rest"
proof -
  have "d \<in> set (filter own_dirty (inorder t))" unfolding d by simp
  then have m: "key d \<in> key ` set_tree t" by auto
  have "filter own_dirty (filter (\<lambda>i. key d < key i) (inorder t)) =
        filter (\<lambda>i. key d < key i) (filter own_dirty (inorder t))"
    by (simp add: conj_commute)
  also have "\<dots> = rest"
    unfolding d
    using filter_greater_sorted[of pre d rest] sorted_filter_entries[of "inorder t" own_dirty] s d
    by (simp add: items_sorted_def)
  finally show ?thesis using next_dirty_after[OF s c m] by simp
qed

section \<open>The first pass: counting what fits\<close>

text \<open>
  In the words of the specification: the first pass counts items and cumulative key bytes
  along the dirty items in key order until \<^verbatim>\<open>fits_single\<close> becomes false, and records the
  last count that fitted. \<open>prefix_fits\<close> asks \<^verbatim>\<open>scoutfs_seg_fits_single\<close> about a list of
  items, with the three \<^verbatim>\<open>u32\<close> totals that \<^verbatim>\<open>count_seg_items\<close> passes.
\<close>

definition key_bytes_of :: "cached_item list \<Rightarrow> nat" where
  "key_bytes_of xs = (\<Sum>i\<leftarrow>xs. key_len (key i))"

definition val_bytes_of :: "cached_item list \<Rightarrow> nat" where
  "val_bytes_of xs = (\<Sum>i\<leftarrow>xs. scoutfs_kvec_length (val i))"

definition prefix_fits :: "externals \<Rightarrow> cached_item list \<Rightarrow> bool" where
  "prefix_fits ext xs =
     seg_fits_single ext (of_nat (length xs)) (of_nat (key_bytes_of xs)) (of_nat (val_bytes_of xs))"

fun fit_from :: "externals \<Rightarrow> cached_item list \<Rightarrow> cached_item list \<Rightarrow> nat" where
  "fit_from ext pre [] = length pre"
| "fit_from ext pre (d # rest) =
     (if prefix_fits ext (pre @ [d]) then fit_from ext (pre @ [d]) rest else length pre)"

definition fit_count :: "externals \<Rightarrow> cached_item list \<Rightarrow> nat" where
  "fit_count ext ds = fit_from ext [] ds"

lemma fit_from_bounds:
  "length pre \<le> fit_from ext pre rest \<and> fit_from ext pre rest \<le> length pre + length rest"
proof (induction rest arbitrary: pre)
  case Nil
  then show ?case by simp
next
  case (Cons d rest)
  from Cons[of "pre @ [d]"] show ?case by simp
qed

lemma fit_from_fits:
  "length pre < m \<Longrightarrow> m \<le> fit_from ext pre rest \<Longrightarrow> prefix_fits ext (take m (pre @ rest))"
proof (induction rest arbitrary: pre)
  case Nil
  then show ?case by simp
next
  case (Cons d rest)
  show ?case
  proof (cases "prefix_fits ext (pre @ [d])")
    case False
    with Cons.prems show ?thesis by simp
  next
    case True
    with Cons.prems have le: "m \<le> fit_from ext (pre @ [d]) rest" by simp
    show ?thesis
    proof (cases "m = Suc (length pre)")
      case eq: True
      then have "take m (pre @ d # rest) = pre @ [d]" by simp
      with True show ?thesis by simp
    next
      case False
      with Cons.prems(1) have "length (pre @ [d]) < m" by simp
      from Cons.IH[OF this le] show ?thesis by simp
    qed
  qed
qed

lemma fit_from_stops:
  "fit_from ext pre rest < length pre + length rest \<Longrightarrow>
   \<not> prefix_fits ext (take (Suc (fit_from ext pre rest)) (pre @ rest))"
proof (induction rest arbitrary: pre)
  case Nil
  then show ?case by simp
next
  case (Cons d rest)
  show ?case
  proof (cases "prefix_fits ext (pre @ [d])")
    case False
    then show ?thesis by simp
  next
    case True
    with Cons.prems have "fit_from ext (pre @ [d]) rest < length (pre @ [d]) + length rest" by simp
    from Cons.IH[OF this] True show ?thesis by simp
  qed
qed

lemma count_seg_loop_counts:
  assumes s: "items_sorted t" and c: "dirty_consistent t"
  shows "filter own_dirty (inorder t) = pre @ rest \<Longrightarrow>
   count_seg_loop ext t (hd_opt rest) (of_nat (length pre)) (of_nat (key_bytes_of pre))
     (of_nat (val_bytes_of pre)) (of_nat (length pre)) (of_nat (key_bytes_of pre)) =
   Some (of_nat (fit_from ext pre rest),
         of_nat (key_bytes_of (take (fit_from ext pre rest) (pre @ rest))))"
proof (induction rest arbitrary: pre)
  case Nil
  then show ?case by (simp add: count_seg_loop.simps)
next
  case (Cons d rest)
  have n: "of_nat (length pre) + 1 = (of_nat (length (pre @ [d])) :: 32 word)" by simp
  have k: "of_nat (key_bytes_of pre) + of_nat (key_len (key d)) = (of_nat (key_bytes_of (pre @ [d])) :: 32 word)"
    by (simp add: key_bytes_of_def)
  have v: "of_nat (val_bytes_of pre) + of_nat (scoutfs_kvec_length (val d)) =
           (of_nat (val_bytes_of (pre @ [d])) :: 32 word)"
    by (simp add: val_bytes_of_def)
  show ?case
  proof (cases "prefix_fits ext (pre @ [d])")
    case False
    then have "\<not> seg_fits_single ext (of_nat (length pre) + 1)
                 (of_nat (key_bytes_of pre) + of_nat (key_len (key d)))
                 (of_nat (val_bytes_of pre) + of_nat (scoutfs_kvec_length (val d)))"
      unfolding n k v by (simp add: prefix_fits_def)
    with False show ?thesis
      by (subst count_seg_loop.simps) (simp add: Let_def)
  next
    case True
    then have f: "seg_fits_single ext (of_nat (length pre) + 1)
                 (of_nat (key_bytes_of pre) + of_nat (key_len (key d)))
                 (of_nat (val_bytes_of pre) + of_nat (scoutfs_kvec_length (val d)))"
      unfolding n k v by (simp add: prefix_fits_def)
    have nx: "next_dirty (item_at (key d)) t = hd_opt rest"
      by (rule next_dirty_in_list[OF s c Cons.prems])
    from Cons.prems have "filter own_dirty (inorder t) = (pre @ [d]) @ rest" by simp
    from Cons.IH[OF this]
    have "count_seg_loop ext t (hd_opt rest) (of_nat (length (pre @ [d])))
            (of_nat (key_bytes_of (pre @ [d]))) (of_nat (val_bytes_of (pre @ [d])))
            (of_nat (length (pre @ [d]))) (of_nat (key_bytes_of (pre @ [d]))) =
          Some (of_nat (fit_from ext (pre @ [d]) rest),
                of_nat (key_bytes_of (take (fit_from ext (pre @ [d]) rest) (pre @ d # rest))))"
      by simp
    then have "count_seg_loop ext t (hd_opt rest) (of_nat (length pre) + 1)
            (of_nat (key_bytes_of pre) + of_nat (key_len (key d)))
            (of_nat (val_bytes_of pre) + of_nat (scoutfs_kvec_length (val d)))
            (of_nat (length pre) + 1) (of_nat (key_bytes_of pre) + of_nat (key_len (key d))) =
          Some (of_nat (fit_from ext (pre @ [d]) rest),
                of_nat (key_bytes_of (take (fit_from ext (pre @ [d]) rest) (pre @ d # rest))))"
      unfolding n k v .
    with True f nx show ?thesis
      by (subst count_seg_loop.simps) (simp add: Let_def)
  qed
qed

lemma count_seg_items_counts:
  assumes s: "items_sorted (rb_node (items cac))" and c: "dirty_consistent (rb_node (items cac))"
  shows "count_seg_items ext cac =
         Some (of_nat (fit_count ext (dirty_items cac)),
               of_nat (key_bytes_of (take (fit_count ext (dirty_items cac)) (dirty_items cac))))"
proof -
  have "filter own_dirty (inorder (rb_node (items cac))) = [] @ dirty_items cac"
    by (simp add: dirty_items_def)
  from count_seg_loop_counts[OF s c this, of ext]
  show ?thesis
    by (simp add: count_seg_items_def first_dirty_hd[OF c] dirty_items_def fit_count_def
          key_bytes_of_def val_bytes_of_def)
qed

section \<open>The second pass: writing and cleaning\<close>

text \<open>
  The calls that the second pass makes for a list of items, in the words of the
  specification: the first item is written with \<^verbatim>\<open>seg_first_item\<close>, which is given the
  count and the key bytes, and every later one with \<^verbatim>\<open>seg_append_item\<close>.
\<close>

definition seg_append_of :: "cached_item \<Rightarrow> seg_call" where
  "seg_append_of i = Seg_append_item (key i) (val i) (item_flags i)"

fun seg_calls :: "32 word \<Rightarrow> 32 word \<Rightarrow> cached_item list \<Rightarrow> seg_call list" where
  "seg_calls nr kb [] = []"
| "seg_calls nr kb (w # rest) =
     Seg_first_item (key w) (val w) (item_flags w) nr kb # map seg_append_of rest"

text \<open>
  What writing the items with the keys \<open>K\<close> does to the entries, in the words of the
  specification: the dirty flag of each is cleared, the deletion items among them are
  erased, and the live ones remain as clean entries.
\<close>

definition seg_written_entries :: "key_buf set \<Rightarrow> cached_item list \<Rightarrow> cached_item list" where
  "seg_written_entries K es =
     map (\<lambda>e. if key e \<in> K then e\<lparr>dirty := 0\<rparr> else e)
       (filter (\<lambda>e. \<not> (key e \<in> K \<and> deletion e)) es)"

text \<open>The dirty entries of a cache, in key order.\<close>

definition dents :: "item_cache \<Rightarrow> cached_item list" where
  "dents cac = filter (\<lambda>e. dirty e \<noteq> 0) (entries cac)"

lemma dents_dirty_items: "dents cac = map entry_of (dirty_items cac)"
  by (simp add: dents_def dirty_items_entries)

lemma hd_opt_map: "hd_opt (map f xs) = map_option f (hd_opt xs)"
  by (cases xs) simp_all

lemma seg_written_entries_empty [simp]: "seg_written_entries {} es = es"
  by (simp add: seg_written_entries_def)

lemma seg_written_entries_Cons:
  "seg_written_entries J (e # es) =
     (if key e \<in> J \<and> deletion e then seg_written_entries J es
      else (if key e \<in> J then e\<lparr>dirty := 0\<rparr> else e) # seg_written_entries J es)"
  by (simp add: seg_written_entries_def)

lemma seg_written_entries_Nil [simp]: "seg_written_entries J [] = []"
  by (simp add: seg_written_entries_def)

lemma seg_written_entries_compose:
  "seg_written_entries K' (seg_written_entries K es) = seg_written_entries (K \<union> K') es"
  by (induction es) (auto simp: seg_written_entries_Cons)

lemma filter_dirty_cleared:
  "filter (\<lambda>e. dirty e \<noteq> 0) (map (\<lambda>e. if key e = k then e\<lparr>dirty := 0\<rparr> else e) es) =
   filter (\<lambda>e. key e \<noteq> k) (filter (\<lambda>e. dirty e \<noteq> 0) es)"
  by (induction es) auto

lemma filter_other_keys_tail:
  assumes "sorted_wrt (<) (map key (e # rest))"
  shows "filter (\<lambda>x. key x \<noteq> key e) (e # rest) = rest"
    and "filter (\<lambda>x. key e < key x) rest = rest"
proof -
  from assms have g: "\<forall>x\<in>set rest. key e < key x" by simp
  then have "\<forall>x\<in>set rest. key x \<noteq> key e" by auto
  then show "filter (\<lambda>x. key x \<noteq> key e) (e # rest) = rest" by (simp add: filter_True)
  from g show "filter (\<lambda>x. key e < key x) rest = rest" by (simp add: filter_True)
qed

lemma sorted_dents: "items_sorted (rb_node (items cac)) \<Longrightarrow> sorted_wrt (<) (map key (dents cac))"
  unfolding dents_def by (rule sorted_filter_entries) (simp add: items_sorted_entries)

lemma dents_clear_item_dirty:
  assumes s: "items_sorted (rb_node (items cac))" and d: "dents cac = e # rest"
  shows "dents (clear_item_dirty cac (key e)) = rest"
proof -
  have "dents (clear_item_dirty cac (key e)) = filter (\<lambda>x. key x \<noteq> key e) (dents cac)"
    by (simp add: dents_def entries_clear_item_dirty[OF s] filter_dirty_cleared)
  also have "\<dots> = rest"
    unfolding d using sorted_dents[OF s] d by (simp only: filter_other_keys_tail(1))
  finally show ?thesis .
qed

lemma dents_erase_item:
  assumes s: "items_sorted (rb_node (items cac))" and d: "\<forall>x\<in>set (dents cac). key x \<noteq> k"
  shows "dents (erase_item cac k) = dents cac"
proof -
  have "dents (erase_item cac k) = filter (\<lambda>x. key x \<noteq> k) (dents cac)"
    by (simp add: dents_def entries_erase_item[OF s] conj_commute)
  also have "\<dots> = dents cac" using d by (simp add: filter_True)
  finally show ?thesis .
qed

lemma dents_head_item:
  assumes s: "items_sorted (rb_node (items cac))" and d: "dents cac = e # rest"
  shows "\<exists>i. rb_find (item_at (key e)) (rb_node (items cac)) = Some i \<and>
             hd_opt (filter own_dirty (inorder (rb_node (items cac)))) = Some i \<and> entry_of i = e"
proof -
  from d have "map entry_of (dirty_items cac) = e # rest" by (simp add: dents_dirty_items)
  then obtain i irest where di: "dirty_items cac = i # irest" and e: "entry_of i = e"
    by (cases "dirty_items cac") auto
  from di have "i \<in> set (dirty_items cac)" by simp
  then have m: "i \<in> set_tree (rb_node (items cac))" by (simp add: dirty_items_def)
  from e have "key i = key e" by auto
  with s m have "rb_find (item_at (key e)) (rb_node (items cac)) = Some i"
    by (simp add: rb_find_sorted)
  moreover from di have "hd_opt (filter own_dirty (inorder (rb_node (items cac)))) = Some i"
    by (simp add: dirty_items_def)
  ultimately show ?thesis using e by blast
qed

lemma written_one_entry:
  "\<forall>x\<in>set es. key x = k \<longrightarrow> deletion x = b \<Longrightarrow>
   (if b then filter (\<lambda>e. key e \<noteq> k) (map (\<lambda>e. if key e = k then e\<lparr>dirty := 0\<rparr> else e) es)
    else map (\<lambda>e. if key e = k then e\<lparr>dirty := 0\<rparr> else e) es) =
   seg_written_entries {k} es"
  by (induction es) (auto simp: seg_written_entries_Cons)

lemma entry_key_unique:
  assumes s: "items_sorted (rb_node (items cac))" and e: "e \<in> set (entries cac)"
    and x: "x \<in> set (entries cac)" and k: "key x = key e"
  shows "x = e"
proof -
  from s have "distinct (map key (entries cac))"
    using sorted_distinct_keys[OF s] by (simp add: entries_def comp_def)
  from filter_key_unique[OF this e] have "set (filter (\<lambda>y. key y = key e) (entries cac)) = {e}"
    by simp
  with x k show ?thesis by auto
qed

lemma dirty_seg_step:
  assumes s: "items_sorted (rb_node (items cac))" and c: "dirty_consistent (rb_node (items cac))"
    and d: "dents cac = e # rest"
  defines "cac1 \<equiv> clear_item_dirty cac (key e)"
  defines "cac2 \<equiv> (if deletion e then erase_item cac1 (key e) else cac1)"
  shows "items_sorted (rb_node (items cac2))" and "dirty_consistent (rb_node (items cac2))"
    and "ranges cac2 = ranges cac" and "dents cac2 = rest"
    and "entries cac2 = seg_written_entries {key e} (entries cac)"
    and "map_option key (next_dirty (item_at (key e)) (rb_node (items cac1))) =
         map_option key (hd_opt rest)"
proof -
  have s1: "items_sorted (rb_node (items cac1))"
    unfolding cac1_def using s by (rule sorted_clear_item_dirty)
  have c1: "dirty_consistent (rb_node (items cac1))"
    unfolding cac1_def using c by (rule dirty_consistent_clear_item_dirty)
  have d1: "dents cac1 = rest"
    unfolding cac1_def by (rule dents_clear_item_dirty[OF s d])
  have e1: "entries cac1 = map (\<lambda>x. if key x = key e then x\<lparr>dirty := 0\<rparr> else x) (entries cac)"
    unfolding cac1_def by (rule entries_clear_item_dirty[OF s])
  from sorted_dents[OF s] d have g: "\<forall>x\<in>set rest. key e < key x" by simp
  then have ne: "\<forall>x\<in>set (dents cac1). key x \<noteq> key e" unfolding d1 by auto
  show "items_sorted (rb_node (items cac2))"
    unfolding cac2_def using s1 by (simp add: sorted_erase_item)
  show "dirty_consistent (rb_node (items cac2))"
    unfolding cac2_def using c1 by (simp add: dirty_consistent_erase_item)
  show "ranges cac2 = ranges cac"
    unfolding cac2_def cac1_def by simp
  show "dents cac2 = rest"
    unfolding cac2_def using d1 dents_erase_item[OF s1 ne] by simp
  have "e \<in> set (dents cac)" unfolding d by simp
  then have em: "e \<in> set (entries cac)" by (simp add: dents_def)
  have u: "\<forall>x\<in>set (entries cac). key x = key e \<longrightarrow> deletion x = deletion e"
    using entry_key_unique[OF s em] by auto
  have "entries cac2 =
        (if deletion e
         then filter (\<lambda>x. key x \<noteq> key e)
                (map (\<lambda>x. if key x = key e then x\<lparr>dirty := 0\<rparr> else x) (entries cac))
         else map (\<lambda>x. if key x = key e then x\<lparr>dirty := 0\<rparr> else x) (entries cac))"
    unfolding cac2_def using e1 entries_erase_item[OF s1, of "key e"] by simp
  with written_one_entry[OF u]
  show "entries cac2 = seg_written_entries {key e} (entries cac)" by simp
  have "key e \<in> key ` set (entries cac)" using em by auto
  then have "key e \<in> set (map key (entries cac1))"
    unfolding cac1_def by (simp add: keys_clear_item_dirty[OF s])
  then have m1: "key e \<in> key ` set_tree (rb_node (items cac1))"
    by (auto simp: entries_def)
  let ?n = "next_dirty (item_at (key e)) (rb_node (items cac1))"
  have "map_option entry_of ?n =
        hd_opt (map entry_of (filter own_dirty
                  (filter (\<lambda>i. key e < key i) (inorder (rb_node (items cac1))))))"
    by (simp add: next_dirty_after[OF s1 c1 m1] hd_opt_map)
  also have "map entry_of (filter own_dirty
                  (filter (\<lambda>i. key e < key i) (inorder (rb_node (items cac1))))) =
             filter (\<lambda>x. key e < key x) (dents cac1)"
    by (simp add: dents_def entries_def filter_map comp_def conj_commute)
  also have "\<dots> = rest"
    unfolding d1 using g by (simp add: filter_True)
  finally have "map_option key (map_option entry_of ?n) = map_option key (hd_opt rest)" by simp
  then show "map_option key ?n = map_option key (hd_opt rest)"
    by (simp add: option.map_comp comp_def)
qed

fun loop_calls :: "key_buf option \<Rightarrow> 32 word \<Rightarrow> 32 word \<Rightarrow> cached_item list \<Rightarrow> seg_call list" where
  "loop_calls ip nr kb [] = []"
| "loop_calls ip nr kb (w # rest) =
     (case ip of
        None \<Rightarrow> Seg_first_item (key w) (val w) (item_flags w) nr kb
      | Some k \<Rightarrow> seg_append_of w) # map seg_append_of rest"

lemma loop_calls_first: "loop_calls None nr kb ws = seg_calls nr kb ws"
  by (cases ws) simp_all

lemma loop_calls_later:
  "ip = map_option key (hd_opt rest) \<Longrightarrow>
   loop_calls ip nr kb (take m rest) = map seg_append_of (take m rest)"
  by (cases rest; cases m) simp_all

lemma word32_of_nat_nonzero:
  assumes "0 < n" "n < 2 ^ 32"
  shows "(of_nat n :: 32 word) \<noteq> 0"
proof
  assume "(of_nat n :: 32 word) = 0"
  then have "unat (of_nat n :: 32 word) = 0" by simp
  moreover have "unat (of_nat n :: 32 word) = n mod 2 ^ LENGTH(32)"
    by (rule unat_of_nat)
  ultimately show False using assms by simp
qed

lemma word32_of_nat_Suc_nonzero: "Suc m < 2 ^ 32 \<Longrightarrow> (of_nat (Suc m) :: 32 word) \<noteq> 0"
  by (rule word32_of_nat_nonzero) simp_all

lemma item_flags_entry_of [simp]: "item_flags (entry_of i) = item_flags i"
  by (simp add: item_flags_def)

lemma dirty_seg_loop_writes:
  "items_sorted (rb_node (items cac)) \<Longrightarrow> dirty_consistent (rb_node (items cac)) \<Longrightarrow>
   m \<le> length (dents cac) \<Longrightarrow> m < 2 ^ 32 \<Longrightarrow>
   ip = None \<or> ip = map_option key (hd_opt (dents cac)) \<Longrightarrow>
   \<exists>cac'. dirty_seg_loop cac seg ip (of_nat m) kb =
             Some (cac', seg @ loop_calls ip (of_nat m) kb (take m (dents cac))) \<and>
          entries cac' = seg_written_entries (key ` set (take m (dents cac))) (entries cac) \<and>
          ranges cac' = ranges cac \<and> items_sorted (rb_node (items cac')) \<and>
          dirty_consistent (rb_node (items cac')) \<and> dents cac' = drop m (dents cac)"
proof (induction m arbitrary: cac seg ip kb)
  case 0
  then show ?case by (simp add: dirty_seg_loop.simps)
next
  case (Suc m)
  note s = Suc.prems(1) and c = Suc.prems(2)
  from Suc.prems(3) obtain e rest where d: "dents cac = e # rest"
    by (cases "dents cac") auto
  from dents_head_item[OF s d] obtain i where
    f: "rb_find (item_at (key e)) (rb_node (items cac)) = Some i"
    and h: "hd_opt (filter own_dirty (inorder (rb_node (items cac)))) = Some i"
    and ie: "entry_of i = e" by blast
  from ie have ke: "key i = key e" and ve: "val i = val e" and de: "deletion i = deletion e"
    and fe: "item_flags i = item_flags e"
    by auto
  have fd: "first_dirty (rb_node (items cac)) = Some i"
    using first_dirty_hd[OF c] h by simp
  have deref: "(case ip of None \<Rightarrow> first_dirty (rb_node (items cac))
                | Some k \<Rightarrow> rb_find (item_at k) (rb_node (items cac))) = Some i"
    using Suc.prems(5) fd f d by auto
  define cac1 where "cac1 = clear_item_dirty cac (key e)"
  define cac2 where "cac2 = (if deletion e then erase_item cac1 (key e) else cac1)"
  define call where "call = (case ip of
       None \<Rightarrow> Seg_first_item (key e) (val e) (item_flags e) (of_nat (Suc m)) kb
     | Some k \<Rightarrow> Seg_append_item (key e) (val e) (item_flags e))"
  define ip' where "ip' = map_option key (next_dirty (item_at (key e)) (rb_node (items cac1)))"
  note st = dirty_seg_step[OF s c d, folded cac1_def, folded cac2_def]
  have nz: "(of_nat (Suc m) :: 32 word) \<noteq> 0"
    using Suc.prems(4) by (rule word32_of_nat_Suc_nonzero)
  have m1: "(of_nat (Suc m) :: 32 word) - 1 = of_nat m" by simp
  have step: "dirty_seg_loop cac seg ip (of_nat (Suc m)) kb =
              dirty_seg_loop cac2 (seg @ [call]) ip' (of_nat m) (kb - of_nat (key_len (key e)))"
    apply (subst dirty_seg_loop.simps)
    apply (simp only: nz if_False deref option.case Let_def ke ve de fe m1)
    apply (simp only: cac1_def[symmetric] cac2_def[symmetric] call_def[symmetric] ip'_def[symmetric])
    done
  from Suc.prems(3) d have ml: "m \<le> length (dents cac2)" by (simp add: st(4))
  from Suc.prems(4) have mb: "m < 2 ^ 32" by simp
  have ipr: "ip' = map_option key (hd_opt rest)" unfolding ip'_def by (rule st(6))
  then have ip2: "ip' = None \<or> ip' = map_option key (hd_opt (dents cac2))" by (simp add: st(4))
  from Suc.IH[OF st(1) st(2) ml mb ip2, of "seg @ [call]" "kb - of_nat (key_len (key e))"]
  obtain cac' where
    r: "dirty_seg_loop cac2 (seg @ [call]) ip' (of_nat m) (kb - of_nat (key_len (key e))) =
          Some (cac', (seg @ [call]) @
                  loop_calls ip' (of_nat m) (kb - of_nat (key_len (key e))) (take m (dents cac2)))"
    and e': "entries cac' = seg_written_entries (key ` set (take m (dents cac2))) (entries cac2)"
    and r': "ranges cac' = ranges cac2" and s': "items_sorted (rb_node (items cac'))"
    and c': "dirty_consistent (rb_node (items cac'))" and d': "dents cac' = drop m (dents cac2)"
    by blast
  have calls: "(seg @ [call]) @
        loop_calls ip' (of_nat m) (kb - of_nat (key_len (key e))) (take m (dents cac2)) =
        seg @ loop_calls ip (of_nat (Suc m)) kb (take (Suc m) (dents cac))"
    unfolding st(4) d using loop_calls_later[OF ipr]
    by (simp add: call_def seg_append_of_def split: option.splits)
  have ents: "entries cac' = seg_written_entries (key ` set (take (Suc m) (dents cac))) (entries cac)"
    unfolding e' st(5) st(4) d seg_written_entries_compose by simp
  from step r calls ents r' st(3) s' c' d' st(4) d show ?case by simp
qed

text \<open>
  The items that a call writes, in the words of the specification: the prefix of the
  dirty items, in key order, that the first pass counted.
\<close>

definition seg_prefix :: "externals \<Rightarrow> item_cache \<Rightarrow> cached_item list" where
  "seg_prefix ext cac = take (fit_count ext (dirty_items cac)) (dirty_items cac)"

text \<open>
  \<^verbatim>\<open>scoutfs_seg_fits_single\<close> is not part of item.c. A segment format in which fewer
  items with fewer bytes fit whenever more do:
\<close>

definition fits_downward :: "externals \<Rightarrow> bool" where
  "fits_downward ext \<longleftrightarrow>
     (\<forall>n k v n' k' v'. seg_fits_single ext n' k' v' \<and> n \<le> n' \<and> k \<le> k' \<and> v \<le> v' \<longrightarrow>
        seg_fits_single ext n k v)"

lemma seg_calls_entry_of: "seg_calls nr kb (map entry_of ws) = seg_calls nr kb ws"
  by (cases ws) (simp_all add: seg_append_of_def)

lemma length_seg_prefix: "length (seg_prefix ext cac) = fit_count ext (dirty_items cac)"
  using fit_from_bounds[of "[]" ext "dirty_items cac"]
  by (simp add: seg_prefix_def fit_count_def)

lemma sorted_dirty_items:
  "items_sorted (rb_node (items cac)) \<Longrightarrow> sorted_wrt (<) (map key (dirty_items cac))"
  unfolding dirty_items_def items_sorted_def by (rule sorted_filter_entries)

lemma sorted_wrt_take_keys:
  "sorted_wrt (<) (map key xs) \<Longrightarrow> sorted_wrt (<) (map key (take n xs))"
proof -
  assume "sorted_wrt (<) (map key xs)"
  then have "sorted_wrt (<) (take n (map key xs))" by (rule sorted_wrt_take)
  then show ?thesis by (simp add: take_map)
qed

lemma key_bytes_of_take_mono: "m \<le> m' \<Longrightarrow> key_bytes_of (take m xs) \<le> key_bytes_of (take m' xs)"
proof (induction xs arbitrary: m m')
  case Nil
  then show ?case by simp
next
  case (Cons x xs)
  then show ?case by (cases m; cases m') (auto simp: key_bytes_of_def)
qed

lemma val_bytes_of_take_mono: "m \<le> m' \<Longrightarrow> val_bytes_of (take m xs) \<le> val_bytes_of (take m' xs)"
proof (induction xs arbitrary: m m')
  case Nil
  then show ?case by simp
next
  case (Cons x xs)
  then show ?case by (cases m; cases m') (auto simp: val_bytes_of_def)
qed

lemma key_bytes_of_take_le: "key_bytes_of (take m xs) \<le> key_bytes_of xs"
proof -
  have "key_bytes_of (take m xs @ drop m xs) = key_bytes_of (take m xs) + key_bytes_of (drop m xs)"
    unfolding key_bytes_of_def by (simp only: map_append sum_list_append)
  then show ?thesis by simp
qed

lemma val_bytes_of_take_le: "val_bytes_of (take m xs) \<le> val_bytes_of xs"
proof -
  have "val_bytes_of (take m xs @ drop m xs) = val_bytes_of (take m xs) + val_bytes_of (drop m xs)"
    unfolding val_bytes_of_def by (simp only: map_append sum_list_append)
  then show ?thesis by simp
qed

lemma word32_of_nat_mono:
  assumes "a \<le> b" "b < 2 ^ 32"
  shows "(of_nat a :: 32 word) \<le> of_nat b"
proof -
  have "unat (of_nat a :: 32 word) = a mod 2 ^ LENGTH(32)" by (rule unat_of_nat)
  moreover have "unat (of_nat b :: 32 word) = b mod 2 ^ LENGTH(32)" by (rule unat_of_nat)
  ultimately show ?thesis using assms by (simp add: word_le_nat_alt)
qed

lemma prefix_fits_downward:
  assumes f: "fits_downward ext" and m: "m \<le> m'"
    and n: "length xs < 2 ^ 32" and k: "key_bytes_of xs < 2 ^ 32" and v: "val_bytes_of xs < 2 ^ 32"
    and p: "prefix_fits ext (take m' xs)"
  shows "prefix_fits ext (take m xs)"
proof -
  from k key_bytes_of_take_le[of m' xs] have kb: "key_bytes_of (take m' xs) < 2 ^ 32" by simp
  from v val_bytes_of_take_le[of m' xs] have vb: "val_bytes_of (take m' xs) < 2 ^ 32" by simp
  have lb: "length (take m' xs) < 2 ^ 32" using n by simp
  have "(of_nat (length (take m xs)) :: 32 word) \<le> of_nat (length (take m' xs))"
    using m lb by (intro word32_of_nat_mono) simp_all
  moreover have "(of_nat (key_bytes_of (take m xs)) :: 32 word) \<le> of_nat (key_bytes_of (take m' xs))"
    using key_bytes_of_take_mono[OF m] kb by (intro word32_of_nat_mono)
  moreover have "(of_nat (val_bytes_of (take m xs)) :: 32 word) \<le> of_nat (val_bytes_of (take m' xs))"
    using val_bytes_of_take_mono[OF m] vb by (intro word32_of_nat_mono)
  ultimately show ?thesis
    using f p unfolding fits_downward_def prefix_fits_def by blast
qed

lemma fit_count_longest:
  assumes f: "fits_downward ext"
    and n: "length ds < 2 ^ 32" and k: "key_bytes_of ds < 2 ^ 32" and v: "val_bytes_of ds < 2 ^ 32"
    and m: "m \<le> length ds" and p: "prefix_fits ext (take m ds)"
  shows "m \<le> fit_count ext ds"
proof (rule ccontr)
  assume "\<not> m \<le> fit_count ext ds"
  then have l: "Suc (fit_count ext ds) \<le> m" by simp
  with m have "fit_from ext [] ds < length [] + length ds" by (simp add: fit_count_def)
  from fit_from_stops[OF this] have "\<not> prefix_fits ext (take (Suc (fit_count ext ds)) ds)"
    by (simp add: fit_count_def)
  with prefix_fits_downward[OF f l n k v p] show False by simp
qed

text \<open>
  The two conditions on the tree hold in every state that the tree operations reach: the
  summary bits are consistent (\<open>reachable_dirty_consistent\<close>) and the keys ascend.
\<close>

lemma reachable_items_sorted: "reachable c \<Longrightarrow> items_sorted (rb_node (items c))"
proof (induction rule: reachable.induct)
  case reach_setup
  then show ?case by (simp add: scoutfs_item_setup_def RB_ROOT_def)
next
  case (reach_schedule c s)
  then show ?case by simp
next
  case (reach_rotate c p d)
  have "map key (inorder (rb_rotate_at scoutfs_item_rb_cb p d (rb_node (items c)))) =
        map key (inorder (rb_node (items c)))"
    by (rule inorder_rotate_at) simp
  with reach_rotate show ?case by (simp add: items_sorted_def)
next
  case (reach_insert c ins ret c')
  from sorted_insert_item[OF reach_insert(4) reach_insert(2)] reach_insert(3)
  show ?case by simp
next
  case (reach_erase c k)
  then show ?case by (simp add: sorted_erase_item)
next
  case (reach_mark c k)
  then show ?case by (simp add: sorted_mark_item_dirty)
next
  case (reach_clear c k)
  then show ?case by (simp add: sorted_clear_item_dirty)
next
  case (reach_set_val c k v)
  have "map key (inorder (rb_update_at (\<lambda>i. i\<lparr>val := v\<rparr>) (item_at k) (rb_node (items c)))) =
        map key (inorder (rb_node (items c)))"
    by (simp add: inorder_update_at_sorted[OF reach_set_val(2)] comp_def if_distrib[of key]
          cong: if_cong)
  with reach_set_val show ?case by (simp add: items_sorted_def set_item_val_def)
next
  case (reach_deletion c k)
  then show ?case by (simp add: sorted_become_deletion_item)
next
  case (reach_ranges c r)
  then show ?case by simp
qed

text \<open>
  C7. On a cache whose tree has ascending keys and consistent summary bits, as every
  reachable cache has, with fewer than \<open>2^32\<close> dirty items,
  \<^verbatim>\<open>scoutfs_item_dirty_seg\<close> returns 0. It writes the prefix
  of the dirty items that the first pass counted, in strictly ascending key order: the
  first with \<^verbatim>\<open>seg_first_item\<close>, which is given the count and the total of the key
  bytes, and each later one with \<^verbatim>\<open>seg_append_item\<close>. In the cache it leaves, the
  written items have no dirty flag, the written deletion items are gone and every other
  entry is as it was. Every counted prefix fits, the prefix with one more item does not,
  and when the segment format is downward closed and the byte totals do not wrap, no
  longer prefix of the dirty items fits.
\<close>

theorem dirty_seg_writes_prefix:
  assumes "items_sorted (rb_node (items cac))" and "dirty_consistent (rb_node (items cac))"
    and "length (dirty_items cac) < 2 ^ 32"
  shows "\<exists>cac'.
     scoutfs_item_dirty_seg ext cac seg =
       Some (0, cac',
             seg @ seg_calls (of_nat (length (seg_prefix ext cac)))
                     (of_nat (key_bytes_of (seg_prefix ext cac))) (seg_prefix ext cac)) \<and>
     sorted_wrt (<) (map key (seg_prefix ext cac)) \<and>
     entries cac' = seg_written_entries (key ` set (seg_prefix ext cac)) (entries cac) \<and>
     ranges cac' = ranges cac \<and>
     (\<forall>m. 0 < m \<and> m \<le> length (seg_prefix ext cac) \<longrightarrow>
          prefix_fits ext (take m (dirty_items cac))) \<and>
     (length (seg_prefix ext cac) < length (dirty_items cac) \<longrightarrow>
        \<not> prefix_fits ext (take (Suc (length (seg_prefix ext cac))) (dirty_items cac))) \<and>
     (fits_downward ext \<and> key_bytes_of (dirty_items cac) < 2 ^ 32 \<and>
      val_bytes_of (dirty_items cac) < 2 ^ 32 \<longrightarrow>
        (\<forall>m. m \<le> length (dirty_items cac) \<and> prefix_fits ext (take m (dirty_items cac)) \<longrightarrow>
             m \<le> length (seg_prefix ext cac)))"
proof -
  note s = assms(1) and c = assms(2) and b = assms(3)
  let ?ds = "dirty_items cac"
  let ?n = "fit_count ext ?ds"
  let ?ws = "seg_prefix ext cac"
  have ln: "length ?ws = ?n" by (rule length_seg_prefix)
  have nl: "?n \<le> length ?ds"
    using fit_from_bounds[of "[]" ext ?ds] by (simp add: fit_count_def)
  have cnt: "count_seg_items ext cac = Some (of_nat ?n, of_nat (key_bytes_of ?ws))"
    unfolding seg_prefix_def by (rule count_seg_items_counts[OF s c])
  have ld: "length (dents cac) = length ?ds" by (simp add: dents_dirty_items)
  from nl have m1: "?n \<le> length (dents cac)" by (simp add: ld)
  from nl b have m2: "?n < 2 ^ 32" by simp
  have tk: "take ?n (dents cac) = map entry_of ?ws"
    by (simp add: dents_dirty_items seg_prefix_def take_map)
  from dirty_seg_loop_writes[OF s c m1 m2, of None seg "of_nat (key_bytes_of ?ws)"]
  obtain cac' where
    l: "dirty_seg_loop cac seg None (of_nat ?n) (of_nat (key_bytes_of ?ws)) =
          Some (cac', seg @ loop_calls None (of_nat ?n) (of_nat (key_bytes_of ?ws))
                            (take ?n (dents cac)))"
    and e: "entries cac' = seg_written_entries (key ` set (take ?n (dents cac))) (entries cac)"
    and r: "ranges cac' = ranges cac"
    by blast
  have calls: "loop_calls None (of_nat ?n) (of_nat (key_bytes_of ?ws)) (take ?n (dents cac)) =
               seg_calls (of_nat (length ?ws)) (of_nat (key_bytes_of ?ws)) ?ws"
    unfolding tk ln by (simp add: loop_calls_first seg_calls_entry_of)
  have keys: "key ` set (take ?n (dents cac)) = key ` set ?ws"
    unfolding tk by (simp add: image_image)
  have run: "scoutfs_item_dirty_seg ext cac seg =
       Some (0, cac', seg @ seg_calls (of_nat (length ?ws)) (of_nat (key_bytes_of ?ws)) ?ws)"
    using cnt l calls by (simp add: scoutfs_item_dirty_seg_def)
  have srt: "sorted_wrt (<) (map key ?ws)"
    unfolding seg_prefix_def by (rule sorted_wrt_take_keys[OF sorted_dirty_items[OF s]])
  have fits: "\<forall>m. 0 < m \<and> m \<le> length ?ws \<longrightarrow> prefix_fits ext (take m ?ds)"
    using fit_from_fits[of "[]" _ ext ?ds] by (simp add: ln fit_count_def)
  have stops: "length ?ws < length ?ds \<longrightarrow> \<not> prefix_fits ext (take (Suc (length ?ws)) ?ds)"
    using fit_from_stops[of ext "[]" ?ds] by (simp add: ln fit_count_def)
  have longest: "fits_downward ext \<and> key_bytes_of ?ds < 2 ^ 32 \<and> val_bytes_of ?ds < 2 ^ 32 \<longrightarrow>
        (\<forall>m. m \<le> length ?ds \<and> prefix_fits ext (take m ?ds) \<longrightarrow> m \<le> length ?ws)"
    using fit_count_longest[of ext ?ds] b by (simp add: ln)
  from run srt e[unfolded keys] r fits stops longest show ?thesis by blast
qed

definition three_dirty :: item_cache where
  "three_dirty =
     \<lparr>items = \<lparr>rb_node =
                 Node (Node Leaf \<lparr>dirty = 1, deletion = False, key = [1], val = Some [97]\<rparr> Leaf)
                   \<lparr>dirty = 7, deletion = True, key = [2], val = None\<rparr>
                   (Node Leaf \<lparr>dirty = 1, deletion = False, key = [3], val = Some [99]\<rparr> Leaf),
               rb_sched = []\<rparr>,
      ranges = RB_ROOT, nr_dirty_items = 3, dirty_key_bytes = 3, dirty_val_bytes = 2\<rparr>"

definition two_fit :: externals where
  "two_fit = \<lparr>key_max = [255], manifest_read = (\<lambda>s e. Inl EIO),
              seg_fits_single = (\<lambda>n k v. n \<le> 2)\<rparr>"

theorem dirty_seg_writes_prefix_witness:
  "items_sorted (rb_node (items three_dirty)) \<and> dirty_consistent (rb_node (items three_dirty)) \<and>
   length (dirty_items three_dirty) < 2 ^ 32 \<and>
   seg_prefix two_fit three_dirty =
     [\<lparr>dirty = 1, deletion = False, key = [1], val = Some [97]\<rparr>,
      \<lparr>dirty = 7, deletion = True, key = [2], val = None\<rparr>] \<and>
   (\<exists>cac'. scoutfs_item_dirty_seg two_fit three_dirty [] =
             Some (0, cac', [Seg_first_item [1] (Some [97]) 0 2 2, Seg_append_item [2] None 1]) \<and>
           entries cac' =
             [\<lparr>dirty = 0, deletion = False, key = [1], val = Some [97]\<rparr>,
              \<lparr>dirty = 1, deletion = False, key = [3], val = Some [99]\<rparr>])"
proof -
  have s: "items_sorted (rb_node (items three_dirty))"
    by (simp add: items_sorted_def three_dirty_def)
  have c: "dirty_consistent (rb_node (items three_dirty))"
    by code_simp
  have d: "dirty_items three_dirty =
     [\<lparr>dirty = 1, deletion = False, key = [1], val = Some [97]\<rparr>,
      \<lparr>dirty = 7, deletion = True, key = [2], val = None\<rparr>,
      \<lparr>dirty = 1, deletion = False, key = [3], val = Some [99]\<rparr>]"
    by code_simp
  have b: "length (dirty_items three_dirty) < 2 ^ 32" by (simp add: d)
  have p: "seg_prefix two_fit three_dirty =
     [\<lparr>dirty = 1, deletion = False, key = [1], val = Some [97]\<rparr>,
      \<lparr>dirty = 7, deletion = True, key = [2], val = None\<rparr>]"
    by code_simp
  have e: "entries three_dirty =
     [\<lparr>dirty = 1, deletion = False, key = [1], val = Some [97]\<rparr>,
      \<lparr>dirty = 1, deletion = True, key = [2], val = None\<rparr>,
      \<lparr>dirty = 1, deletion = False, key = [3], val = Some [99]\<rparr>]"
    by code_simp
  from dirty_seg_writes_prefix[OF s c b, of two_fit "[]"] obtain cac' where
    r: "scoutfs_item_dirty_seg two_fit three_dirty [] =
       Some (0, cac',
             [] @ seg_calls (of_nat (length (seg_prefix two_fit three_dirty)))
                     (of_nat (key_bytes_of (seg_prefix two_fit three_dirty)))
                     (seg_prefix two_fit three_dirty))"
    and w: "entries cac' =
         seg_written_entries (key ` set (seg_prefix two_fit three_dirty)) (entries three_dirty)"
    by blast
  from r have r': "scoutfs_item_dirty_seg two_fit three_dirty [] =
             Some (0, cac', [Seg_first_item [1] (Some [97]) 0 2 2, Seg_append_item [2] None 1])"
    unfolding p
    by (simp add: key_bytes_of_def key_len_def item_flags_def SCOUTFS_ITEM_FLAG_DELETION_def
          seg_append_of_def)
  from w have w': "entries cac' =
             [\<lparr>dirty = 0, deletion = False, key = [1], val = Some [97]\<rparr>,
              \<lparr>dirty = 1, deletion = False, key = [3], val = Some [99]\<rparr>]"
    unfolding p e by (simp add: seg_written_entries_def)
  from s c b p r' w' show ?thesis by blast
qed

end
